theory Spec2Isabelle
  imports Main "HOL-Library.AList"
begin

chapter \<open>The model\<close>

section \<open>JavaScript values of the dashboard script\<close>

text \<open>
  The script handles JSON documents and plain objects. Numbers are the integers that
  identifiers, ranks, counts and millisecond timestamps are, together with \<open>NaN\<close>, which
  the coercion \<open>Number(...)\<close> produces on values that are not numeric. Equality of
  \<open>jsnum\<close> is the SameValueZero comparison of \<open>Map\<close> keys (\<open>NaN\<close> equals itself).

  A string is the list of its bytes in UTF-8; the characters that the script tests for
  are single bytes, and no byte of a longer sequence equals one of them. An object is the
  list of its properties, each key once. \<open>undefined\<close> is a value of its own, so that a
  missing property and an empty array slot can be told from \<open>null\<close>.
\<close>

datatype jsnum = Fin int | NaN

datatype jsval =
    JUndefined
  | JNull
  | JBool bool
  | JNum jsnum
  | JStr string
  | JArr "jsval list"
  | JObj "(string \<times> jsval) list"

datatype error =
    TypeError
  | SyntaxError
  | URIError
  | StorageError
  | FetchRejected
  | HttpError int jsval
  | RequestFailed

text \<open>
  Functions of the JavaScript runtime that the script calls and does not define. They
  are parameters of the model: \<open>numberOf\<close> is \<open>Number\<close> on strings and arrays,
  \<open>stringOf\<close> is \<open>String\<close> on values that are not strings, \<open>numberFormat\<close> is
  \<open>Intl.NumberFormat("en-US").format\<close>.
\<close>

record builtins =
  numberOf :: "jsval \<Rightarrow> jsnum"
  stringOf :: "jsval \<Rightarrow> string"
  encodeURIComponent :: "string \<Rightarrow> error + string"
  numberFormat :: "jsval \<Rightarrow> string"
  jsonParse :: "string \<Rightarrow> error + jsval"
  jsonStringify :: "jsval \<Rightarrow> string"

text \<open>
  \<open>Number(v)\<close>. A plain object, as \<open>JSON.parse\<close> and object literals make it, converts
  through the string \<open>"[object Object]"\<close> to \<open>NaN\<close>.
\<close>

fun toNumber :: "builtins \<Rightarrow> jsval \<Rightarrow> jsnum" where
  "toNumber rt JUndefined = NaN"
| "toNumber rt JNull = Fin 0"
| "toNumber rt (JBool b) = Fin (if b then 1 else 0)"
| "toNumber rt (JNum n) = n"
| "toNumber rt (JObj kvs) = NaN"
| "toNumber rt v = numberOf rt v"

text \<open>\<open>String(v)\<close>.\<close>

fun toString :: "builtins \<Rightarrow> jsval \<Rightarrow> string" where
  "toString rt (JStr s) = s"
| "toString rt v = stringOf rt v"

text \<open>Truthiness, as \<open>if (v)\<close>, \<open>!v\<close> and \<open>while (v)\<close> test it.\<close>

fun truthy :: "jsval \<Rightarrow> bool" where
  "truthy JUndefined = False"
| "truthy JNull = False"
| "truthy (JBool b) = b"
| "truthy (JNum n) = (n \<noteq> NaN \<and> n \<noteq> Fin 0)"
| "truthy (JStr s) = (s \<noteq> [])"
| "truthy (JArr xs) = True"
| "truthy (JObj kvs) = True"

text \<open>
  Property read \<open>v.k\<close>: a TypeError on \<open>undefined\<close> and \<open>null\<close>, the stored value on an
  object, \<open>undefined\<close> where the property is missing. The property names the script reads
  are not properties of strings, numbers, booleans or arrays.
\<close>

fun getProp :: "jsval \<Rightarrow> string \<Rightarrow> error + jsval" where
  "getProp JUndefined k = Inl TypeError"
| "getProp JNull k = Inl TypeError"
| "getProp (JObj kvs) k = Inr (case map_of kvs k of None \<Rightarrow> JUndefined | Some v \<Rightarrow> v)"
| "getProp v k = Inr JUndefined"

text \<open>Optional chaining \<open>v?.k\<close>.\<close>

fun getPropOpt :: "jsval \<Rightarrow> string \<Rightarrow> jsval" where
  "getPropOpt JUndefined k = JUndefined"
| "getPropOpt JNull k = JUndefined"
| "getPropOpt (JObj kvs) k = (case map_of kvs k of None \<Rightarrow> JUndefined | Some v \<Rightarrow> v)"
| "getPropOpt v k = JUndefined"

text \<open>Nullish coalescing \<open>v ?? d\<close>.\<close>

fun nullish :: "jsval \<Rightarrow> jsval \<Rightarrow> jsval" where
  "nullish JUndefined d = d"
| "nullish JNull d = d"
| "nullish v d = v"

text \<open>\<open>Array.isArray(v) ? v : []\<close>.\<close>

fun arrayOrEmpty :: "jsval \<Rightarrow> jsval list" where
  "arrayOrEmpty (JArr xs) = xs"
| "arrayOrEmpty v = []"

section \<open>escapeHtml and renderOwnedGroups\<close>

text \<open>\<open>s.replaceAll(c, r)\<close> for a pattern of one character and a replacement without \<open>$\<close>.\<close>

definition replaceAll :: "char \<Rightarrow> string \<Rightarrow> string \<Rightarrow> string" where
  "replaceAll c r s = concat (map (\<lambda>x. if x = c then r else [x]) s)"

definition escapeHtml :: "builtins \<Rightarrow> jsval \<Rightarrow> string" where
  "escapeHtml rt v =
     replaceAll (CHR 0x27) ''&#39;''
       (replaceAll (CHR 0x22) ''&quot;''
         (replaceAll (CHR ''>'') ''&gt;''
           (replaceAll (CHR ''<'') ''&lt;''
             (replaceAll (CHR ''&'') ''&amp;'' (toString rt v)))))"

text \<open>
  \<open>xs.join(sep)\<close>: \<open>undefined\<close> and \<open>null\<close> elements give the empty string.
\<close>

fun elementString :: "builtins \<Rightarrow> jsval \<Rightarrow> string" where
  "elementString rt JUndefined = []"
| "elementString rt JNull = []"
| "elementString rt v = toString rt v"

fun joinStrings :: "string \<Rightarrow> string list \<Rightarrow> string" where
  "joinStrings sep [] = []"
| "joinStrings sep [s] = s"
| "joinStrings sep (s # t # ss) = s @ sep @ joinStrings sep (t # ss)"

definition join :: "builtins \<Rightarrow> string \<Rightarrow> jsval list \<Rightarrow> string" where
  "join rt sep xs = joinStrings sep (map (elementString rt) xs)"

text \<open>\<open>xs.map(f)\<close> with a callback that may throw: the first exception ends the call.\<close>

fun mapE :: "('a \<Rightarrow> error + 'b) \<Rightarrow> 'a list \<Rightarrow> error + 'b list" where
  "mapE f [] = Inr []"
| "mapE f (x # xs) =
     (case f x of
        Inl e \<Rightarrow> Inl e
      | Inr y \<Rightarrow> (case mapE f xs of Inl e \<Rightarrow> Inl e | Inr ys \<Rightarrow> Inr (y # ys)))"

text \<open>
  The markup of one community card: the template literal of \<open>renderOwnedGroups\<close>, cut
  at its three interpolations.
\<close>

definition card_open :: string where
  \<open>card_open = [CHR 0x0A] @ replicate 16 (CHR '' '') @ ''<article class="group-card">''
     @ [CHR 0x0A] @ replicate 20 (CHR '' '') @ ''<p class="group-name">''\<close>

definition card_meta :: string where
  \<open>card_meta = ''</p>'' @ [CHR 0x0A] @ replicate 20 (CHR '' '') @ ''<p class="group-meta">''\<close>

definition card_link :: string where
  \<open>card_link = '' members</p>'' @ [CHR 0x0A] @ replicate 20 (CHR '' '')
     @ ''<a class="group-link" href="https://www.roblox.com/communities/''\<close>

definition card_close :: string where
  \<open>card_close = ''" target="_blank" rel="noreferrer">Open Group</a>'' @ [CHR 0x0A]
     @ replicate 16 (CHR '' '') @ ''</article>'' @ [CHR 0x0A] @ replicate 12 (CHR '' '')\<close>

definition groupCard :: "builtins \<Rightarrow> jsval \<Rightarrow> error + string" where
  "groupCard rt grp =
     (case getProp grp ''name'' of
        Inl e \<Rightarrow> Inl e
      | Inr name \<Rightarrow>
          (case getProp grp ''memberCount'' of
             Inl e \<Rightarrow> Inl e
           | Inr members \<Rightarrow>
               (case getProp grp ''id'' of
                  Inl e \<Rightarrow> Inl e
                | Inr ident \<Rightarrow>
                    Inr (card_open @ escapeHtml rt name @ card_meta @ numberFormat rt members
                         @ card_link @ toString rt ident @ card_close))))"

text \<open>The value assigned to \<open>groupsGrid.innerHTML\<close>, or the exception thrown.\<close>

definition renderOwnedGroups :: "builtins \<Rightarrow> jsval list \<Rightarrow> error + string" where
  "renderOwnedGroups rt groups =
     (if groups = [] then Inr ''<p class='empty-groups'>No owned groups were found.</p>''
      else (case mapE (groupCard rt) groups of
              Inl e \<Rightarrow> Inl e
            | Inr cards \<Rightarrow> Inr (concat cards)))"

section \<open>Arithmetic and comparison of numbers\<close>

text \<open>\<open>NaN\<close> is absorbing for \<open>+\<close>, \<open>-\<close> and \<open>*\<close>; every comparison with \<open>NaN\<close> is false.\<close>

fun nadd :: "jsnum \<Rightarrow> jsnum \<Rightarrow> jsnum" where
  "nadd (Fin a) (Fin b) = Fin (a + b)"
| "nadd a b = NaN"

fun nsub :: "jsnum \<Rightarrow> jsnum \<Rightarrow> jsnum" where
  "nsub (Fin a) (Fin b) = Fin (a - b)"
| "nsub a b = NaN"

fun nmul :: "jsnum \<Rightarrow> jsnum \<Rightarrow> jsnum" where
  "nmul (Fin a) (Fin b) = Fin (a * b)"
| "nmul a b = NaN"

fun nle :: "jsnum \<Rightarrow> jsnum \<Rightarrow> bool" where
  "nle (Fin a) (Fin b) = (a \<le> b)"
| "nle a b = False"

fun ngt :: "jsnum \<Rightarrow> jsnum \<Rightarrow> bool" where
  "ngt (Fin a) (Fin b) = (a > b)"
| "ngt a b = False"

fun nge :: "jsnum \<Rightarrow> jsnum \<Rightarrow> bool" where
  "nge (Fin a) (Fin b) = (a \<ge> b)"
| "nge a b = False"

text \<open>\<open>Number.isFinite(n)\<close>.\<close>

fun isFinite :: "jsnum \<Rightarrow> bool" where
  "isFinite (Fin a) = True"
| "isFinite NaN = False"

text \<open>\<open>items.reduce((total, item) => total + Number(item[key] ?? 0), 0)\<close> on records
  whose field \<open>key\<close> holds a number.\<close>

definition sumBy :: "('a \<Rightarrow> jsnum) \<Rightarrow> 'a list \<Rightarrow> jsnum" where
  "sumBy key items = foldl (\<lambda>total item. nadd total (key item)) (Fin 0) items"

section \<open>Chunking of the batch endpoint\<close>

text \<open>\<open>values.slice(a, b)\<close> for \<open>0 \<le> a \<le> b\<close>.\<close>

definition slice :: "'a list \<Rightarrow> nat \<Rightarrow> nat \<Rightarrow> 'a list" where
  "slice values a b = drop a (take b values)"

text \<open>
  \<open>chunkArray(values, chunkSize)\<close>: the loop \<open>for (i = 0; i < values.length; i += chunkSize)\<close>
  does not end when \<open>chunkSize\<close> is 0 and \<open>values\<close> is not empty, so the loop is a partial
  function and \<open>None\<close> stands for not returning.
\<close>

partial_function (option) chunkArray_loop ::
  "'a list \<Rightarrow> nat \<Rightarrow> nat \<Rightarrow> 'a list list \<Rightarrow> 'a list list option" where
  "chunkArray_loop values chunkSize i chunks =
     (if i < length values
      then chunkArray_loop values chunkSize (i + chunkSize) (chunks @ [slice values i (i + chunkSize)])
      else Some chunks)"

definition chunkArray :: "'a list \<Rightarrow> nat \<Rightarrow> 'a list list option" where
  "chunkArray values chunkSize = chunkArray_loop values chunkSize 0 []"

text \<open>
  A server whose answers are scripted: \<open>responses n\<close> is what \<open>fetchJson\<close> gives for the
  \<open>n\<close>-th request of a call (an exception or the parsed payload). Every run of a function
  that issues its requests one after the other is the run against the script of the
  answers it received.
\<close>

type_synonym responses = "nat \<Rightarrow> error + jsval"

text \<open>The path of the batch request for one chunk.\<close>

definition statsPath :: "builtins \<Rightarrow> jsval list \<Rightarrow> string" where
  "statsPath rt chunk = ''/v1/games?universeIds='' @ join rt '','' chunk"

text \<open>
  The loop of \<open>getUniverseStats\<close> over the chunks; \<open>requests\<close> collects the paths passed to
  \<open>fetchJson\<close>, the result pairs the outcome with them.
\<close>

fun getUniverseStats_loop ::
  "builtins \<Rightarrow> responses \<Rightarrow> jsval list list \<Rightarrow> jsval list \<Rightarrow> string list
    \<Rightarrow> (error + jsval list) \<times> string list" where
  "getUniverseStats_loop rt responses [] stats requests = (Inr stats, requests)"
| "getUniverseStats_loop rt responses (chunk # chunks) stats requests =
     (let path = statsPath rt chunk;
          requests' = requests @ [path]
      in case responses (length requests) of
           Inl e \<Rightarrow> (Inl e, requests')
         | Inr response \<Rightarrow>
             (case getProp response ''data'' of
                Inl e \<Rightarrow> (Inl e, requests')
              | Inr d \<Rightarrow>
                  getUniverseStats_loop rt responses chunks (stats @ arrayOrEmpty d) requests'))"

definition getUniverseStats ::
  "builtins \<Rightarrow> responses \<Rightarrow> jsval list \<Rightarrow> ((error + jsval list) \<times> string list) option" where
  "getUniverseStats rt responses universeIds =
     (if length universeIds = 0 then Some (Inr [], [])
      else (case chunkArray universeIds 30 of
              None \<Rightarrow> None
            | Some chunks \<Rightarrow> Some (getUniverseStats_loop rt responses chunks [] [])))"

text \<open>
  The chunk loop written out in \<open>getUniversePlayingById\<close>:
  \<open>for (index = 0; index < universeIds.length; index += 100)\<close>.
\<close>

function universeChunks_loop :: "'a list \<Rightarrow> nat \<Rightarrow> 'a list list \<Rightarrow> 'a list list" where
  "universeChunks_loop universeIds index chunks =
     (if index < length universeIds
      then universeChunks_loop universeIds (index + 100)
             (chunks @ [slice universeIds index (index + 100)])
      else chunks)"
  by pat_completeness auto
termination
  by (relation "measure (\<lambda>(universeIds, index, chunks). length universeIds - index)") auto

definition universeChunks :: "'a list \<Rightarrow> 'a list list" where
  "universeChunks universeIds = universeChunks_loop universeIds 0 []"

section \<open>mapWithConcurrency\<close>

text \<open>
  The event loop runs one piece of code at a time, up to its next \<open>await\<close>. A worker
  is therefore in one of three places: suspended at \<open>await handler(items[i], i)\<close>,
  returned, or rejected because its handler call was.

  \<open>handler item i\<close> is what the promise of the call \<open>handler(items[i], i)\<close> settles with:
  \<open>Inr\<close> a value, \<open>Inl\<close> a rejection. It depends on the item and the index only, so the
  model may read it when the call settles. An empty slot of \<open>new Array(n)\<close> is \<open>None\<close>. The
  concurrency limit is a number of calls, a natural number.
\<close>

datatype worker = Awaiting nat | Returned | Rejected

record ('b, 'e) pool =
  results :: "'b option list"
  nextIndex :: nat
  workers :: "worker list"
  rejection :: "'e option"

text \<open>The state before the first worker is started.\<close>

definition pool_init :: "'a list \<Rightarrow> ('b, 'e) pool" where
  "pool_init items =
     \<lparr>results = replicate (length items) None, nextIndex = 0, workers = [], rejection = None\<rparr>"

text \<open>\<open>const count = Math.min(concurrency, items.length)\<close>.\<close>

definition worker_count :: "'a list \<Rightarrow> nat \<Rightarrow> nat" where
  "worker_count items concurrency = min concurrency (length items)"

text \<open>
  The head of the worker's loop, up to the \<open>await\<close>: take \<open>nextIndex\<close>, increment it, return
  when the index is past the items, else call the handler and suspend.
\<close>

definition worker_enter :: "'a list \<Rightarrow> ('b, 'e) pool \<Rightarrow> worker \<times> ('b, 'e) pool" where
  "worker_enter items s =
     (let currentIndex = nextIndex s;
          s' = s\<lparr>nextIndex := nextIndex s + 1\<rparr>
      in if currentIndex \<ge> length items then (Returned, s') else (Awaiting currentIndex, s'))"

text \<open>\<open>workers.push(worker())\<close>.\<close>

definition start_worker :: "'a list \<Rightarrow> ('b, 'e) pool \<Rightarrow> ('b, 'e) pool" where
  "start_worker items s =
     (case worker_enter items s of (w, s') \<Rightarrow> s'\<lparr>workers := workers s' @ [w]\<rparr>)"

text \<open>
  The handler call that worker \<open>w\<close> awaits settles and the worker resumes: it stores the
  value and goes round its loop, or it is rejected, and the first rejection is the one
  \<open>Promise.all(workers)\<close> rejects with. \<open>None\<close> when worker \<open>w\<close> awaits nothing.
\<close>

definition resume_worker ::
  "'a list \<Rightarrow> ('a \<Rightarrow> nat \<Rightarrow> 'e + 'b) \<Rightarrow> nat \<Rightarrow> ('b, 'e) pool \<Rightarrow> ('b, 'e) pool option" where
  "resume_worker items handler w s =
     (if w < length (workers s) then
        (case workers s ! w of
           Awaiting i \<Rightarrow>
             (case handler (items ! i) i of
                Inr v \<Rightarrow>
                  (case worker_enter items (s\<lparr>results := (results s)[i := Some v]\<rparr>) of
                     (st, s') \<Rightarrow> Some (s'\<lparr>workers := (workers s')[w := st]\<rparr>))
              | Inl e \<Rightarrow>
                  Some (s\<lparr>workers := (workers s)[w := Rejected],
                          rejection := (case rejection s of None \<Rightarrow> Some e | Some e' \<Rightarrow> Some e')\<rparr>))
         | Returned \<Rightarrow> None
         | Rejected \<Rightarrow> None)
      else None)"

text \<open>
  One step of a call: while fewer than \<open>count\<close> workers exist the \<open>for\<close> loop starts the
  next one (nothing else runs meanwhile); afterwards any awaited handler call may be the
  next to settle.
\<close>

inductive pool_step ::
  "'a list \<Rightarrow> nat \<Rightarrow> ('a \<Rightarrow> nat \<Rightarrow> 'e + 'b) \<Rightarrow> ('b, 'e) pool \<Rightarrow> ('b, 'e) pool \<Rightarrow> bool"
  for items concurrency handler where
  start: "length (workers s) < worker_count items concurrency
            \<Longrightarrow> pool_step items concurrency handler s (start_worker items s)"
| settle: "length (workers s) = worker_count items concurrency
            \<Longrightarrow> resume_worker items handler w s = Some s'
            \<Longrightarrow> pool_step items concurrency handler s s'"

text \<open>The states a call can be in.\<close>

inductive pool_reachable ::
  "'a list \<Rightarrow> nat \<Rightarrow> ('a \<Rightarrow> nat \<Rightarrow> 'e + 'b) \<Rightarrow> ('b, 'e) pool \<Rightarrow> bool"
  for items concurrency handler where
  init: "pool_reachable items concurrency handler (pool_init items)"
| step: "pool_reachable items concurrency handler s
            \<Longrightarrow> pool_step items concurrency handler s s'
            \<Longrightarrow> pool_reachable items concurrency handler s'"

text \<open>The handler calls that are pending in a state.\<close>

fun awaiting :: "worker \<Rightarrow> bool" where
  "awaiting (Awaiting i) = True"
| "awaiting Returned = False"
| "awaiting Rejected = False"

definition pending :: "('b, 'e) pool \<Rightarrow> nat" where
  "pending s = length (filter awaiting (workers s))"

text \<open>
  What \<open>await Promise.all(workers); return results\<close> gives in a state: the first rejection
  as soon as there is one, the array once every worker has returned, nothing yet
  otherwise.
\<close>

definition pool_outcome ::
  "'a list \<Rightarrow> nat \<Rightarrow> ('b, 'e) pool \<Rightarrow> ('e + 'b option list) option" where
  "pool_outcome items concurrency s =
     (if length (workers s) < worker_count items concurrency then None
      else (case rejection s of
              Some e \<Rightarrow> Some (Inl e)
            | None \<Rightarrow>
                if list_all (\<lambda>w. w = Returned) (workers s) then Some (Inr (results s))
                else None))"

text \<open>
  The call under a given order of settlement: \<open>order\<close> lists the workers whose awaited
  call settles next (an entry naming a worker that awaits nothing is skipped).
\<close>

definition settle_next ::
  "'a list \<Rightarrow> ('a \<Rightarrow> nat \<Rightarrow> 'e + 'b) \<Rightarrow> ('b, 'e) pool \<Rightarrow> nat \<Rightarrow> ('b, 'e) pool" where
  "settle_next items handler s w =
     (case resume_worker items handler w s of None \<Rightarrow> s | Some s' \<Rightarrow> s')"

definition pool_started :: "'a list \<Rightarrow> nat \<Rightarrow> ('b, 'e) pool" where
  "pool_started items concurrency =
     ((start_worker items) ^^ (worker_count items concurrency)) (pool_init items)"

definition mapWithConcurrency ::
  "'a list \<Rightarrow> nat \<Rightarrow> ('a \<Rightarrow> nat \<Rightarrow> 'e + 'b) \<Rightarrow> nat list \<Rightarrow> ('e + 'b option list) option" where
  "mapWithConcurrency items concurrency handler order =
     pool_outcome items concurrency
       (foldl (settle_next items handler) (pool_started items concurrency) order)"

section \<open>Owned communities\<close>

record community =
  ident :: jsnum
  name :: jsval
  memberCount :: jsnum

definition isOwnedGroup :: "jsval \<Rightarrow> bool" where
  "isOwnedGroup entry =
     (case getPropOpt (getPropOpt entry ''role'') ''rank'' of
        JNum rank \<Rightarrow> nge rank (Fin 255)
      | _ \<Rightarrow> False)"

text \<open>The object literal built by the \<open>map\<close> callback of \<open>getOwnedGroups\<close>.\<close>

definition ownedRecord :: "builtins \<Rightarrow> jsval \<Rightarrow> error + community" where
  "ownedRecord rt entry =
     (case getProp entry ''group'' of
        Inl e \<Rightarrow> Inl e
      | Inr g \<Rightarrow>
          (case getProp g ''id'' of
             Inl e \<Rightarrow> Inl e
           | Inr i \<Rightarrow>
               (case getProp g ''name'' of
                  Inl e \<Rightarrow> Inl e
                | Inr n \<Rightarrow>
                    (case getProp g ''memberCount'' of
                       Inl e \<Rightarrow> Inl e
                     | Inr m \<Rightarrow>
                         Inr \<lparr>ident = toNumber rt i, name = n,
                              memberCount = toNumber rt (nullish m (JNum (Fin 0)))\<rparr>))))"

text \<open>
  A \<open>Map\<close> is an association list in insertion order: \<open>set\<close> on a present key replaces the
  value where it stands, on a new key it appends (\<open>AList.update\<close>); \<open>values()\<close> lists the
  values in that order.
\<close>

definition dedupeById :: "community list \<Rightarrow> (jsnum \<times> community) list" where
  "dedupeById owned = foldl (\<lambda>deduped g. AList.update (ident g) g deduped) [] owned"

text \<open>
  \<open>xs.sort(compare)\<close>, a stable sort: \<open>a\<close> stays before \<open>b\<close> unless \<open>compare(a, b) > 0\<close>. A
  comparison that yields \<open>NaN\<close> counts as 0.
\<close>

fun sortInsert :: "('a \<Rightarrow> 'a \<Rightarrow> jsnum) \<Rightarrow> 'a \<Rightarrow> 'a list \<Rightarrow> 'a list" where
  "sortInsert compare a [] = [a]"
| "sortInsert compare a (b # bs) =
     (if ngt (compare a b) (Fin 0) then b # sortInsert compare a bs else a # b # bs)"

definition sortBy :: "('a \<Rightarrow> 'a \<Rightarrow> jsnum) \<Rightarrow> 'a list \<Rightarrow> 'a list" where
  "sortBy compare xs = foldr (sortInsert compare) xs []"

text \<open>\<open>getOwnedGroups\<close>, given what \<open>fetchJson\<close> answered for the roles of the user.\<close>

definition getOwnedGroups :: "builtins \<Rightarrow> error + jsval \<Rightarrow> error + community list" where
  "getOwnedGroups rt response =
     (case response of
        Inl e \<Rightarrow> Inl e
      | Inr payload \<Rightarrow>
          (case getProp payload ''data'' of
             Inl e \<Rightarrow> Inl e
           | Inr d \<Rightarrow>
               (case mapE (ownedRecord rt) (filter isOwnedGroup (arrayOrEmpty d)) of
                  Inl e \<Rightarrow> Inl e
                | Inr owned \<Rightarrow>
                    Inr (sortBy (\<lambda>a b. nsub (memberCount b) (memberCount a))
                           (map snd (dedupeById owned))))))"

section \<open>Content items\<close>

record game =
  universeId :: jsnum
  rootPlaceId :: jsnum
  placeVisits :: jsnum

text \<open>The three constants computed at the head of the loop body of \<open>collectGames\<close>.\<close>

definition gameRecord :: "builtins \<Rightarrow> jsval \<Rightarrow> error + game" where
  "gameRecord rt g =
     (case getProp g ''id'' of
        Inl e \<Rightarrow> Inl e
      | Inr i \<Rightarrow>
          (case getProp g ''rootPlace'' of
             Inl e \<Rightarrow> Inl e
           | Inr rootPlace \<Rightarrow>
               (case getProp g ''placeVisits'' of
                  Inl e \<Rightarrow> Inl e
                | Inr v \<Rightarrow>
                    Inr \<lparr>universeId = toNumber rt (nullish i (JNum (Fin 0))),
                         rootPlaceId =
                           toNumber rt (nullish (getPropOpt rootPlace ''id'') (JNum (Fin 0))),
                         placeVisits = toNumber rt (nullish v (JNum (Fin 0)))\<rparr>)))"

fun collectGames_loop ::
  "builtins \<Rightarrow> jsval list \<Rightarrow> (jsnum \<times> game) list \<Rightarrow> error + (jsnum \<times> game) list" where
  "collectGames_loop rt [] m = Inr m"
| "collectGames_loop rt (g # gs) m =
     (case gameRecord rt g of
        Inl e \<Rightarrow> Inl e
      | Inr r \<Rightarrow>
          if nle (universeId r) (Fin 0) then collectGames_loop rt gs m
          else collectGames_loop rt gs (AList.update (universeId r) r m))"

definition collectGames :: "builtins \<Rightarrow> jsval list \<Rightarrow> jsval list \<Rightarrow> error + game list" where
  "collectGames rt userGames groupGames =
     (case collectGames_loop rt (userGames @ groupGames) [] of
        Inl e \<Rightarrow> Inl e
      | Inr m \<Rightarrow> Inr (map snd m))"

section \<open>Playing counts and totals\<close>

text \<open>The inner loop of \<open>getUniversePlayingById\<close> over the items of one response.\<close>

fun playingItems_loop ::
  "builtins \<Rightarrow> jsval list \<Rightarrow> (jsnum \<times> jsnum) list \<Rightarrow> error + (jsnum \<times> jsnum) list" where
  "playingItems_loop rt [] playingById = Inr playingById"
| "playingItems_loop rt (item # items) playingById =
     (case getProp item ''id'' of
        Inl e \<Rightarrow> Inl e
      | Inr i \<Rightarrow>
          (let universeId = toNumber rt (nullish i (JNum (Fin 0)))
           in if nle universeId (Fin 0) then playingItems_loop rt items playingById
              else (case getProp item ''playing'' of
                      Inl e \<Rightarrow> Inl e
                    | Inr p \<Rightarrow>
                        playingItems_loop rt items
                          (AList.update universeId (toNumber rt (nullish p (JNum (Fin 0))))
                             playingById))))"

text \<open>The outer loop over the responses; an empty slot of the array reads as \<open>undefined\<close>.\<close>

fun playingResponses_loop ::
  "builtins \<Rightarrow> jsval option list \<Rightarrow> (jsnum \<times> jsnum) list \<Rightarrow> error + (jsnum \<times> jsnum) list" where
  "playingResponses_loop rt [] playingById = Inr playingById"
| "playingResponses_loop rt (r # rs) playingById =
     (case getProp (case r of None \<Rightarrow> JUndefined | Some response \<Rightarrow> response) ''data'' of
        Inl e \<Rightarrow> Inl e
      | Inr d \<Rightarrow>
          (case playingItems_loop rt (arrayOrEmpty d) playingById of
             Inl e \<Rightarrow> Inl e
           | Inr playingById' \<Rightarrow> playingResponses_loop rt rs playingById'))"

text \<open>
  \<open>getUniversePlayingById\<close>. \<open>responses i\<close> is what \<open>fetchJson\<close> gives for chunk \<open>i\<close>. With a
  concurrency of 1 there is one worker, and the calls settle in the order it makes them.
  \<open>None\<close> stands for a call that never settles.
\<close>

definition getUniversePlayingById ::
  "builtins \<Rightarrow> responses \<Rightarrow> jsnum list \<Rightarrow> (error + (jsnum \<times> jsnum) list) option" where
  "getUniversePlayingById rt responses universeIds =
     (if length universeIds = 0 then Some (Inr [])
      else (let chunks = universeChunks universeIds
            in case mapWithConcurrency chunks 1 (\<lambda>chunk i. responses i)
                      (replicate (length chunks) 0) of
                 None \<Rightarrow> None
               | Some (Inl e) \<Rightarrow> Some (Inl e)
               | Some (Inr rs) \<Rightarrow> Some (playingResponses_loop rt rs [])))"

record totals =
  visits :: jsnum
  groupMembers :: jsnum
  playing :: jsnum

text \<open>
  The loop of \<open>buildTotals\<close>. The fields of a content item are numbers, so
  \<open>Number(game.placeVisits ?? 0)\<close> and \<open>Number(game.rootPlaceId ?? 0)\<close> are the fields
  themselves; the values of both maps are numbers, so \<open>??\<close> tests only for a missing key.
\<close>

fun buildTotals_loop ::
  "game list \<Rightarrow> (jsnum \<times> jsnum) list \<Rightarrow> (jsnum \<times> jsnum) list \<Rightarrow> jsnum \<Rightarrow> jsnum
    \<Rightarrow> jsnum \<times> jsnum" where
  "buildTotals_loop [] rolimonsPlayersByPlace universePlayingById visitsSum playingSum =
     (visitsSum, playingSum)"
| "buildTotals_loop (g # gs) rolimonsPlayersByPlace universePlayingById visitsSum playingSum =
     (let visitsSum' = nadd visitsSum (placeVisits g);
          placeId = rootPlaceId g;
          rolimonsPlaying =
            (if ngt placeId (Fin 0) then map_of rolimonsPlayersByPlace placeId else None);
          fallbackPlaying =
            (case map_of universePlayingById (universeId g) of None \<Rightarrow> Fin 0 | Some p \<Rightarrow> p);
          playingSum' =
            nadd playingSum (case rolimonsPlaying of None \<Rightarrow> fallbackPlaying | Some p \<Rightarrow> p)
      in buildTotals_loop gs rolimonsPlayersByPlace universePlayingById visitsSum' playingSum')"

definition buildTotals ::
  "community list \<Rightarrow> game list \<Rightarrow> (jsnum \<times> jsnum) list \<Rightarrow> (jsnum \<times> jsnum) list \<Rightarrow> totals" where
  "buildTotals ownedGroups allGames rolimonsPlayersByPlace universePlayingById =
     (case buildTotals_loop allGames rolimonsPlayersByPlace universePlayingById (Fin 0) (Fin 0) of
        (v, p) \<Rightarrow> \<lparr>visits = v, groupMembers = sumBy memberCount ownedGroups, playing = p\<rparr>)"

text \<open>
  The part of \<open>loadPortfolioStats\<close> between the merged list and the totals:
  \<open>universePlayingById\<close> is fetched only when the map of the secondary provider is empty,
  and is an empty map otherwise.
\<close>

definition refreshTotals ::
  "builtins \<Rightarrow> responses \<Rightarrow> community list \<Rightarrow> game list \<Rightarrow> (jsnum \<times> jsnum) list
    \<Rightarrow> (error + totals) option" where
  "refreshTotals rt responses ownedGroups allGames rolimonsPlayersByPlace =
     (let universeIds = map universeId allGames
      in case (if length rolimonsPlayersByPlace = 0
               then getUniversePlayingById rt responses universeIds
               else Some (Inr [])) of
           None \<Rightarrow> None
         | Some (Inl e) \<Rightarrow> Some (Inl e)
         | Some (Inr universePlayingById) \<Rightarrow>
             Some (Inr (buildTotals ownedGroups allGames rolimonsPlayersByPlace
                          universePlayingById)))"

section \<open>The paginated collector\<close>

text \<open>
  One pass through the body of the \<open>do ... while (cursor)\<close> loop of \<open>getPagedGames\<close>. The
  state is the cursor, the games collected, and the paths requested so far (the next
  request is number \<open>length requests\<close> of the call).
\<close>

definition getPagedGames_page ::
  "builtins \<Rightarrow> responses \<Rightarrow> string \<Rightarrow> jsval \<times> jsval list \<times> string list
    \<Rightarrow> error + jsval \<times> jsval list \<times> string list" where
  "getPagedGames_page rt responses path st =
     (case st of (cursor, games, requests) \<Rightarrow>
        (case (if truthy cursor
               then (case encodeURIComponent rt (toString rt cursor) of
                       Inl e \<Rightarrow> Inl e
                     | Inr c \<Rightarrow> Inr (path @ ''&cursor='' @ c))
               else Inr path) of
           Inl e \<Rightarrow> Inl e
         | Inr pagePath \<Rightarrow>
             (case responses (length requests) of
                Inl e \<Rightarrow> Inl e
              | Inr payload \<Rightarrow>
                  (case getProp payload ''data'' of
                     Inl e \<Rightarrow> Inl e
                   | Inr d \<Rightarrow>
                       (case getProp payload ''nextPageCursor'' of
                          Inl e \<Rightarrow> Inl e
                        | Inr cursor' \<Rightarrow>
                            Inr (cursor', games @ arrayOrEmpty d, requests @ [pagePath]))))))"

text \<open>The loop has no bound: \<open>None\<close> stands for a call that never returns.\<close>

partial_function (option) getPagedGames_loop ::
  "builtins \<Rightarrow> responses \<Rightarrow> string \<Rightarrow> jsval \<times> jsval list \<times> string list
    \<Rightarrow> (error + jsval list \<times> string list) option" where
  "getPagedGames_loop rt responses path st =
     (case getPagedGames_page rt responses path st of
        Inl e \<Rightarrow> Some (Inl e)
      | Inr st' \<Rightarrow>
          if truthy (fst st') then getPagedGames_loop rt responses path st'
          else Some (Inr (snd st')))"

text \<open>The games returned, with the paths that were requested.\<close>

definition getPagedGames ::
  "builtins \<Rightarrow> responses \<Rightarrow> string \<Rightarrow> (error + jsval list \<times> string list) option" where
  "getPagedGames rt responses path = getPagedGames_loop rt responses path (JNull, [], [])"

section \<open>The fetch wrapper\<close>

text \<open>
  What one \<open>fetch\<close> call ends with: a rejection (network failure, or the abort of the
  timeout), or a response with its status, the value of \<open>headers.get("retry-after")\<close> (a
  string or \<open>null\<close>) and what \<open>response.json()\<close> yields.
\<close>

record httpResponse =
  status :: int
  retryAfterHeader :: jsval
  jsonBody :: "error + jsval"

text \<open>\<open>response.ok\<close>: the status is in the range 200 to 299.\<close>

definition ok :: "httpResponse \<Rightarrow> bool" where
  "ok response = (200 \<le> status response \<and> status response \<le> 299)"

text \<open>The \<open>try\<close> block of one attempt: the value returned, or the exception caught.\<close>

definition attemptResult :: "builtins \<Rightarrow> error + httpResponse \<Rightarrow> error + jsval" where
  "attemptResult rt fetched =
     (case fetched of
        Inl e \<Rightarrow> Inl e
      | Inr response \<Rightarrow>
          if \<not> ok response then
            (let retryAfterRaw = toNumber rt (retryAfterHeader response)
             in Inl (HttpError (status response)
                       (if isFinite retryAfterRaw then JNum (nmul retryAfterRaw (Fin 1000))
                        else JNull)))
          else jsonBody response)"

text \<open>\<open>error.retryAfterMs\<close>: only the error made for a status carries the property.\<close>

fun retryAfterMs :: "error \<Rightarrow> jsval" where
  "retryAfterMs (HttpError st r) = r"
| "retryAfterMs e = JUndefined"

text \<open>The wait computed in the \<open>catch\<close> block.\<close>

definition backoffMs :: "builtins \<Rightarrow> error \<Rightarrow> nat \<Rightarrow> jsnum" where
  "backoffMs rt e attempt =
     (if ngt (toNumber rt (retryAfterMs e)) (Fin 0) then toNumber rt (retryAfterMs e)
      else Fin (300 * int attempt * int attempt))"

text \<open>
  The loop \<open>for (attempt = 1; attempt <= 3; attempt += 1)\<close>. \<open>attempts k\<close> is what the
  \<open>k\<close>-th \<open>fetch\<close> ends with. The result is the value returned or the exception thrown, the
  delays waited in order, and the number of the \<open>fetch\<close> calls made.
\<close>

function fetchAbsoluteJson_loop ::
  "builtins \<Rightarrow> (nat \<Rightarrow> error + httpResponse) \<Rightarrow> nat \<Rightarrow> error option \<Rightarrow> jsnum list
    \<Rightarrow> (error + jsval) \<times> jsnum list \<times> nat" where
  "fetchAbsoluteJson_loop rt attempts attempt lastError delays =
     (if attempt \<le> 3 then
        (case attemptResult rt (attempts attempt) of
           Inr parsed \<Rightarrow> (Inr parsed, delays, attempt)
         | Inl e \<Rightarrow>
             fetchAbsoluteJson_loop rt attempts (attempt + 1) (Some e)
               (delays @ [backoffMs rt e attempt]))
      else (Inl (case lastError of None \<Rightarrow> RequestFailed | Some e \<Rightarrow> e), delays, attempt - 1))"
  by pat_completeness auto
termination
  by (relation "measure (\<lambda>(rt, attempts, attempt, lastError, delays). 4 - attempt)") auto

definition fetchAbsoluteJson ::
  "builtins \<Rightarrow> (nat \<Rightarrow> error + httpResponse) \<Rightarrow> (error + jsval) \<times> jsnum list \<times> nat" where
  "fetchAbsoluteJson rt attempts = fetchAbsoluteJson_loop rt attempts 1 None []"

section \<open>The snapshot cache\<close>

text \<open>
  \<open>localStorage\<close>: the stored strings; whether the storage can be used at all (reading
  it throws when it cannot); and which writes it accepts (a write throws when the quota
  is exceeded).
\<close>

record storage =
  stored :: "string \<rightharpoonup> string"
  usable :: bool
  accepts :: "string \<Rightarrow> string \<Rightarrow> bool"

definition getItem :: "storage \<Rightarrow> string \<Rightarrow> error + string option" where
  "getItem store key = (if usable store then Inr (stored store key) else Inl StorageError)"

definition setItem :: "storage \<Rightarrow> string \<Rightarrow> string \<Rightarrow> error + storage" where
  "setItem store key v =
     (if usable store \<and> accepts store key v
      then Inr (store\<lparr>stored := (stored store)(key \<mapsto> v)\<rparr>)
      else Inl StorageError)"

text \<open>\<open>typeof v === "object"\<close>.\<close>

fun typeofObject :: "jsval \<Rightarrow> bool" where
  "typeofObject JNull = True"
| "typeofObject (JArr xs) = True"
| "typeofObject (JObj kvs) = True"
| "typeofObject v = False"

text \<open>\<open>readSnapshot\<close>; \<open>now\<close> is \<open>Date.now()\<close>. Every exception ends in \<open>return null\<close>.\<close>

definition readSnapshot :: "builtins \<Rightarrow> storage \<Rightarrow> int \<Rightarrow> string \<Rightarrow> int \<Rightarrow> jsval" where
  "readSnapshot rt store now key maxAgeMs =
     (case getItem store key of
        Inl e \<Rightarrow> JNull
      | Inr None \<Rightarrow> JNull
      | Inr (Some raw) \<Rightarrow>
          if raw = [] then JNull
          else (case jsonParse rt raw of
                  Inl e \<Rightarrow> JNull
                | Inr parsed \<Rightarrow>
                    if \<not> truthy parsed \<or> \<not> typeofObject parsed then JNull
                    else (case getProp parsed ''updatedAtMs'' of
                            Inl e \<Rightarrow> JNull
                          | Inr u \<Rightarrow>
                              (let updatedAtMs = toNumber rt (nullish u (JNum (Fin 0)))
                               in if nle updatedAtMs (Fin 0) then JNull
                                  else if ngt (nsub (Fin now) updatedAtMs) (Fin maxAgeMs)
                                  then JNull
                                  else parsed))))"

text \<open>\<open>writeSnapshot\<close>: the storage afterwards; an exception of \<open>setItem\<close> is swallowed.\<close>

definition writeSnapshot :: "builtins \<Rightarrow> storage \<Rightarrow> string \<Rightarrow> jsval \<Rightarrow> storage" where
  "writeSnapshot rt store key data =
     (case setItem store key (jsonStringify rt data) of
        Inl e \<Rightarrow> store
      | Inr store' \<Rightarrow> store')"

section \<open>A runtime for evaluation\<close>

text \<open>
  The theorems below hold for every runtime \<open>rt\<close>. To evaluate the model on concrete
  inputs, \<open>sampleRuntime\<close> gives each function of the runtime its JavaScript value on the
  inputs that the evaluations use: decimal digit strings and strings without digits for
  \<open>Number\<close>, integers and the other primitive values for \<open>String\<close>, bytes of UTF-8 for
  \<open>encodeURIComponent\<close>, integers from 0 to 999 for the number format, and the documents
  of \<open>sampleDocuments\<close> for \<open>JSON.parse\<close> and \<open>JSON.stringify\<close>.
\<close>

definition digitChar :: "nat \<Rightarrow> char" where
  "digitChar d = ''0123456789ABCDEF'' ! d"

function decimal :: "nat \<Rightarrow> string" where
  "decimal n = (if n < 10 then [digitChar n] else decimal (n div 10) @ [digitChar (n mod 10)])"
  by pat_completeness auto
termination
  by (relation "measure (\<lambda>n. n)") auto

definition decimalInt :: "int \<Rightarrow> string" where
  "decimalInt i = (if i < 0 then ''-'' @ decimal (nat (- i)) else decimal (nat i))"

definition digitValue :: "char \<Rightarrow> nat option" where
  "digitValue c =
     (if of_char c \<ge> (48::nat) \<and> of_char c \<le> (57::nat) then Some (of_char c - 48) else None)"

fun digitsValue :: "string \<Rightarrow> nat \<Rightarrow> nat option" where
  "digitsValue [] acc = Some acc"
| "digitsValue (c # cs) acc =
     (case digitValue c of None \<Rightarrow> None | Some d \<Rightarrow> digitsValue cs (10 * acc + d))"

definition sampleNumberOf :: "jsval \<Rightarrow> jsnum" where
  "sampleNumberOf v =
     (case v of
        JStr s \<Rightarrow>
          (if s = [] then Fin 0
           else (case digitsValue s 0 of None \<Rightarrow> NaN | Some n \<Rightarrow> Fin (int n)))
      | _ \<Rightarrow> NaN)"

definition sampleStringOf :: "jsval \<Rightarrow> string" where
  "sampleStringOf v =
     (case v of
        JUndefined \<Rightarrow> ''undefined''
      | JNull \<Rightarrow> ''null''
      | JBool b \<Rightarrow> (if b then ''true'' else ''false'')
      | JNum NaN \<Rightarrow> ''NaN''
      | JNum (Fin i) \<Rightarrow> decimalInt i
      | JStr s \<Rightarrow> s
      | JArr xs \<Rightarrow> []
      | JObj kvs \<Rightarrow> ''[object Object]'')"

definition unreserved :: "char \<Rightarrow> bool" where
  "unreserved c =
     (c \<in> set ''ABCDEFGHIJKLMNOPQRSTUVWXYZabcdefghijklmnopqrstuvwxyz0123456789-_.!~*()''
      \<or> c = CHR 0x27)"

definition percentEncode :: "string \<Rightarrow> string" where
  "percentEncode s =
     concat (map (\<lambda>c. if unreserved c then [c]
                       else [CHR ''%'', digitChar (of_char c div 16), digitChar (of_char c mod 16)]) s)"

definition sampleDocuments :: "(string \<times> jsval) list" where
  \<open>sampleDocuments =
     [(''{"updatedAtMs":1000}'', JObj [(''updatedAtMs'', JNum (Fin 1000))]),
      (''{"updatedAtMs":"soon"}'', JObj [(''updatedAtMs'', JStr ''soon'')])]\<close>

definition sampleRuntime :: builtins where
  "sampleRuntime =
     \<lparr>numberOf = sampleNumberOf,
      stringOf = sampleStringOf,
      encodeURIComponent = (\<lambda>s. Inr (percentEncode s)),
      numberFormat = sampleStringOf,
      jsonParse = (\<lambda>s. case map_of sampleDocuments s of None \<Rightarrow> Inl SyntaxError | Some v \<Rightarrow> Inr v),
      jsonStringify =
        (\<lambda>v. case map_of (map (\<lambda>(s, d). (d, s)) sampleDocuments) v of
                None \<Rightarrow> ''null'' | Some s \<Rightarrow> s)\<rparr>"

section \<open>Notions used to state the properties\<close>

text \<open>The five entities that \<open>escapeHtml\<close> writes.\<close>

definition entities :: "string list" where
  "entities = [''&amp;'', ''&lt;'', ''&gt;'', ''&quot;'', ''&#39;'']"

text \<open>What the five replacements of \<open>escapeHtml\<close> make of one character.\<close>

definition escapeChar :: "char \<Rightarrow> string" where
  "escapeChar c =
     (if c = CHR ''&'' then ''&amp;''
      else if c = CHR ''<'' then ''&lt;''
      else if c = CHR ''>'' then ''&gt;''
      else if c = CHR 0x22 then ''&quot;''
      else if c = CHR 0x27 then ''&#39;''
      else [c])"

text \<open>An entity starts at position \<open>i\<close> of \<open>out\<close>.\<close>

definition entityAt :: "string \<Rightarrow> nat \<Rightarrow> bool" where
  "entityAt out i = list_ex (\<lambda>e. take (length e) (drop i out) = e) entities"

text \<open>A roles payload with a duplicated group, a lower rank and a rank that is a string.\<close>

definition sampleRoles :: jsval where
  "sampleRoles = JObj [(''data'', JArr
     [JObj [(''group'', JObj [(''id'', JNum (Fin 1)), (''name'', JStr ''A''), (''memberCount'', JNum (Fin 10))]),
            (''role'', JObj [(''rank'', JNum (Fin 255))])],
      JObj [(''group'', JObj [(''id'', JNum (Fin 2)), (''name'', JStr ''B''), (''memberCount'', JNum (Fin 70))]),
            (''role'', JObj [(''rank'', JNum (Fin 254))])],
      JObj [(''group'', JObj [(''id'', JNum (Fin 4)), (''name'', JStr ''D''), (''memberCount'', JNum (Fin 20))]),
            (''role'', JObj [(''rank'', JNum (Fin 255))])],
      JObj [(''group'', JObj [(''id'', JNum (Fin 3)), (''name'', JStr ''C''), (''memberCount'', JNum (Fin 50))]),
            (''role'', JObj [(''rank'', JStr ''255'')])],
      JObj [(''group'', JObj [(''id'', JNum (Fin 1)), (''name'', JStr ''A2''), (''memberCount'', JNum (Fin 30))]),
            (''role'', JObj [(''rank'', JNum (Fin 300))])]])]"

text \<open>
  For the paginated collector: the cursor and the items of a response, whether a response
  is a payload (neither an exception nor \<open>null\<close>), whether a cursor can be encoded, and
  the path requested for page \<open>i\<close>: the plain path for the first page, the path with the
  encoded cursor of response \<open>i - 1\<close> afterwards.
\<close>

definition pageCursor :: "error + jsval \<Rightarrow> jsval" where
  "pageCursor r = (case r of Inl e \<Rightarrow> JUndefined | Inr payload \<Rightarrow> getPropOpt payload ''nextPageCursor'')"

definition pageItems :: "error + jsval \<Rightarrow> jsval list" where
  "pageItems r = (case r of Inl e \<Rightarrow> [] | Inr payload \<Rightarrow> arrayOrEmpty (getPropOpt payload ''data''))"

definition isPayload :: "error + jsval \<Rightarrow> bool" where
  "isPayload r = (case r of Inl e \<Rightarrow> False | Inr payload \<Rightarrow> payload \<noteq> JNull \<and> payload \<noteq> JUndefined)"

definition encodedCursor :: "builtins \<Rightarrow> jsval \<Rightarrow> string" where
  "encodedCursor rt c = (case encodeURIComponent rt (toString rt c) of Inl e \<Rightarrow> [] | Inr s \<Rightarrow> s)"

definition encodable :: "builtins \<Rightarrow> jsval \<Rightarrow> bool" where
  "encodable rt c = (case encodeURIComponent rt (toString rt c) of Inl e \<Rightarrow> False | Inr s \<Rightarrow> True)"

definition pagePath :: "builtins \<Rightarrow> responses \<Rightarrow> string \<Rightarrow> nat \<Rightarrow> string" where
  "pagePath rt responses path i =
     (if i = 0 then path
      else path @ ''&cursor='' @ encodedCursor rt (pageCursor (responses (i - 1))))"


text \<open>Three pages, the last without a cursor.\<close>

definition samplePages :: responses where
  "samplePages n =
     (if n = 0 then Inr (JObj [(''data'', JArr [JStr ''g1'', JStr ''g2'']), (''nextPageCursor'', JStr ''abc'')])
      else if n = 1 then Inr (JObj [(''data'', JArr [JStr ''g3'']), (''nextPageCursor'', JStr ''d e'')])
      else if n = 2 then Inr (JObj [(''data'', JArr [JStr ''g4''])])
      else Inl FetchRejected)"

text \<open>The backoff of 300 ms times the square of the attempt number.\<close>

definition quadraticBackoff :: "nat \<Rightarrow> jsnum" where
  "quadraticBackoff attempt = Fin (300 * int attempt * int attempt)"

text \<open>
  The wait after a failed attempt in the words of the specification: the retry-after
  duration of the server when the response gives one, the quadratic backoff otherwise.
\<close>

definition claimedWait :: "builtins \<Rightarrow> httpResponse \<Rightarrow> nat \<Rightarrow> jsnum" where
  "claimedWait rt response attempt =
     (case retryAfterHeader response of
        JNull \<Rightarrow> quadraticBackoff attempt
      | h \<Rightarrow> nmul (toNumber rt h) (Fin 1000))"

text \<open>
  A server that answers every attempt with status 503 and \<open>retry-after: 0\<close>; and a run that
  is told to wait 2 seconds, then fails in the network, then succeeds.
\<close>

definition busyResponse :: httpResponse where
  "busyResponse = \<lparr>status = 503, retryAfterHeader = JStr ''0'', jsonBody = Inl SyntaxError\<rparr>"

definition busyAttempts :: "nat \<Rightarrow> error + httpResponse" where
  "busyAttempts k = Inr busyResponse"

definition limitedResponse :: httpResponse where
  "limitedResponse = \<lparr>status = 429, retryAfterHeader = JStr ''2'', jsonBody = Inl SyntaxError\<rparr>"

definition sampleAttempts :: "nat \<Rightarrow> error + httpResponse" where
  "sampleAttempts k =
     (if k = 1 then Inr limitedResponse
      else if k = 2 then Inl FetchRejected
      else Inr \<lparr>status = 200, retryAfterHeader = JNull, jsonBody = Inr (JObj [])\<rparr>)"

text \<open>A storage whose snapshot entry has a timestamp that is not a number.\<close>

definition staleStore :: storage where
  \<open>staleStore =
     \<lparr>stored = [''mensch_portfolio_snapshot_v2'' \<mapsto> ''{"updatedAtMs":"soon"}''],
      usable = True, accepts = (\<lambda>k v. True)\<rparr>\<close>

text \<open>
  The contribution of a content item to the playing total in the words of the
  specification: the figure of the secondary provider for the root place when it has one,
  otherwise the figure of the primary provider for the universe id.
\<close>

definition claimedContribution ::
  "(jsnum \<times> jsnum) list \<Rightarrow> (jsnum \<times> jsnum) list \<Rightarrow> game \<Rightarrow> jsnum" where
  "claimedContribution secondary primary g =
     (case map_of secondary (rootPlaceId g) of
        Some p \<Rightarrow> p
      | None \<Rightarrow> (case map_of primary (universeId g) of Some p \<Rightarrow> p | None \<Rightarrow> Fin 0))"

text \<open>
  The contribution as \<open>buildTotals\<close> computes it from its two maps: the secondary figure
  needs a positive root place id, and a universe without a figure counts 0.
\<close>

definition contribution ::
  "(jsnum \<times> jsnum) list \<Rightarrow> (jsnum \<times> jsnum) list \<Rightarrow> game \<Rightarrow> jsnum" where
  "contribution rolimonsPlayersByPlace universePlayingById g =
     (case (if ngt (rootPlaceId g) (Fin 0) then map_of rolimonsPlayersByPlace (rootPlaceId g)
            else None) of
        Some p \<Rightarrow> p
      | None \<Rightarrow> (case map_of universePlayingById (universeId g) of Some p \<Rightarrow> p | None \<Rightarrow> Fin 0))"

text \<open>
  Two content items; a secondary provider that knows the root place of the first only; a
  primary provider that reports 3 and 7 players for the two universes.
\<close>

definition sampleGames :: "game list" where
  "sampleGames =
     [\<lparr>universeId = Fin 1, rootPlaceId = Fin 10, placeVisits = Fin 100\<rparr>,
      \<lparr>universeId = Fin 2, rootPlaceId = Fin 20, placeVisits = Fin 200\<rparr>]"

definition sampleRolimons :: "(jsnum \<times> jsnum) list" where
  "sampleRolimons = [(Fin 10, Fin 5)]"

definition samplePrimary :: responses where
  "samplePrimary n =
     Inr (JObj [(''data'', JArr
       [JObj [(''id'', JNum (Fin 1)), (''playing'', JNum (Fin 3))],
        JObj [(''id'', JNum (Fin 2)), (''playing'', JNum (Fin 7))]])])"

text \<open>
  For the worker pool: a measure that every step decreases, the place a worker is in
  after the head of its loop, and the invariant of the reachable states.
\<close>

definition pool_measure :: "'a list \<Rightarrow> nat \<Rightarrow> ('b, 'e) pool \<Rightarrow> nat" where
  "pool_measure items concurrency s =
     (worker_count items concurrency - length (workers s)) + pending s
       + (length items - min (length items) (nextIndex s))"

definition entered :: "'a list \<Rightarrow> nat \<Rightarrow> worker" where
  "entered items k = (if k \<ge> length items then Returned else Awaiting k)"

definition pool_inv ::
  "'a list \<Rightarrow> nat \<Rightarrow> ('a \<Rightarrow> nat \<Rightarrow> 'e + 'b) \<Rightarrow> ('b, 'e) pool \<Rightarrow> bool" where
  "pool_inv items concurrency handler s \<longleftrightarrow>
     length (results s) = length items
   \<and> length (workers s) \<le> worker_count items concurrency
   \<and> (\<forall>i. Awaiting i \<in> set (workers s) \<longrightarrow> i < length items \<and> i < nextIndex s)
   \<and> (Returned \<in> set (workers s) \<longrightarrow> length items \<le> nextIndex s)
   \<and> (Rejected \<in> set (workers s) \<longrightarrow> rejection s \<noteq> None)
   \<and> (\<forall>e. rejection s = Some e \<longrightarrow> (\<exists>i<length items. handler (items ! i) i = Inl e))
   \<and> (\<forall>i v. i < length items \<longrightarrow> results s ! i = Some v \<longrightarrow> handler (items ! i) i = Inr v)
   \<and> (\<forall>i. i < length items \<longrightarrow> i < nextIndex s \<longrightarrow>
          results s ! i \<noteq> None \<or> Awaiting i \<in> set (workers s)
          \<or> (\<exists>e. handler (items ! i) i = Inl e))"

text \<open>A handler that fulfils every call with ten times the item.\<close>

definition tenfold :: "int \<Rightarrow> nat \<Rightarrow> error + int" where
  "tenfold x i = Inr (10 * x)"

chapter \<open>Properties\<close>

section \<open>escapeHtml\<close>

lemma replaceAll_append: "replaceAll c r (a @ b) = replaceAll c r a @ replaceAll c r b"
  by (simp add: replaceAll_def)

lemma replaceAll_concat_map:
  "replaceAll c r (concat (map f s)) = concat (map (\<lambda>x. replaceAll c r (f x)) s)"
  by (induction s) (simp_all add: replaceAll_append, simp add: replaceAll_def)

lemma replaceAll_as_map: "replaceAll c r s = concat (map (\<lambda>x. replaceAll c r [x]) s)"
  by (simp add: replaceAll_def)

lemma escapeHtml_charwise: "escapeHtml rt v = concat (map escapeChar (toString rt v))"
proof -
  have "\<And>x. replaceAll (CHR 0x27) ''&#39;''
       (replaceAll (CHR 0x22) ''&quot;''
         (replaceAll (CHR ''>'') ''&gt;''
           (replaceAll (CHR ''<'') ''&lt;''
             (replaceAll (CHR ''&'') ''&amp;'' [x])))) = escapeChar x"
    by (simp add: replaceAll_def escapeChar_def)
  then show ?thesis
    unfolding escapeHtml_def
    by (subst replaceAll_as_map) (simp only: replaceAll_concat_map)
qed

lemma escapeChar_set:
  "set (escapeChar c) \<inter> {CHR ''<'', CHR ''>'', CHR 0x22, CHR 0x27} = {}"
  by (simp add: escapeChar_def)

lemma entityAt_step:
  assumes "\<forall>i<length rest. rest ! i = CHR ''&'' \<longrightarrow> entityAt rest i"
    and "i < length (escapeChar c @ rest)" and "(escapeChar c @ rest) ! i = CHR ''&''"
  shows "entityAt (escapeChar c @ rest) i"
proof (cases "i < length (escapeChar c)")
  case True
  then have "i = 0" using assms(3)
    by (auto simp: escapeChar_def nth_append nth_Cons' split: if_splits)
  with True assms(3) have "escapeChar c ! 0 = CHR ''&''"
    by (simp add: nth_append)
  then have "escapeChar c \<in> set entities"
    by (simp add: entities_def escapeChar_def split: if_splits)
  moreover have "take (length (escapeChar c)) (drop 0 (escapeChar c @ rest)) = escapeChar c"
    by simp
  ultimately show ?thesis
    unfolding entityAt_def list_ex_iff \<open>i = 0\<close> by blast
next
  case False
  then obtain j where j: "i = length (escapeChar c) + j" "j < length rest"
    using assms(2) by (metis add_diff_inverse_nat length_append nat_add_left_cancel_less)
  with assms(3) have "rest ! j = CHR ''&''" by (simp add: nth_append)
  with assms(1) j have "entityAt rest j" by blast
  then show ?thesis using j by (simp add: entityAt_def)
qed

lemma entityAt_escaped:
  "\<forall>i<length (concat (map escapeChar s)). concat (map escapeChar s) ! i = CHR ''&''
      \<longrightarrow> entityAt (concat (map escapeChar s)) i"
proof (induction s)
  case Nil
  then show ?case by simp
next
  case (Cons c s)
  show ?case
  proof (intro allI impI)
    fix i
    assume "i < length (concat (map escapeChar (c # s)))"
      and "concat (map escapeChar (c # s)) ! i = CHR ''&''"
    then show "entityAt (concat (map escapeChar (c # s))) i"
      using entityAt_step [OF Cons.IH, of i c] by simp
  qed
qed

lemma escaped_set:
  "set (concat (map escapeChar s)) \<inter> {CHR ''<'', CHR ''>'', CHR 0x22, CHR 0x27} = {}"
  using escapeChar_set by (induction s) (simp, simp add: Int_Un_distrib2)

lemma getProp_getPropOpt: "getProp v k = Inr x \<Longrightarrow> x = getPropOpt v k"
  by (cases v) auto

lemma groupCard_Inr:
  "groupCard rt g = Inr markup \<Longrightarrow>
     markup = card_open @ escapeHtml rt (getPropOpt g ''name'') @ card_meta
            @ numberFormat rt (getPropOpt g ''memberCount'') @ card_link
            @ toString rt (getPropOpt g ''id'') @ card_close"
  by (auto simp: groupCard_def split: sum.splits dest!: getProp_getPropOpt)

lemma mapE_Inr:
  "mapE f xs = Inr ys \<Longrightarrow> (\<And>x y. f x = Inr y \<Longrightarrow> y = h x) \<Longrightarrow> ys = map h xs"
  by (induction xs arbitrary: ys) (auto split: sum.splits)

text \<open>
  Claim C10. The output of \<open>escapeHtml\<close> contains none of the characters \<open><\<close>, \<open>>\<close>, the
  double quote and the apostrophe, and each \<open>&\<close> of the output starts one of the five
  entities. The markup that \<open>renderOwnedGroups\<close> writes for a non-empty list is the
  concatenation of the cards, and the name of a group enters its card only through
  \<open>escapeHtml\<close>.
\<close>

theorem escapeHtml_escapes:
  "CHR ''<'' \<notin> set (escapeHtml rt v) \<and> CHR ''>'' \<notin> set (escapeHtml rt v)
   \<and> CHR 0x22 \<notin> set (escapeHtml rt v) \<and> CHR 0x27 \<notin> set (escapeHtml rt v)
   \<and> (\<forall>i<length (escapeHtml rt v). escapeHtml rt v ! i = CHR ''&'' \<longrightarrow>
         (\<exists>e\<in>set entities. take (length e) (drop i (escapeHtml rt v)) = e))
   \<and> (groups \<noteq> [] \<and> renderOwnedGroups rt groups = Inr html \<longrightarrow>
         html = concat (map (\<lambda>g. card_open @ escapeHtml rt (getPropOpt g ''name'') @ card_meta
                                  @ numberFormat rt (getPropOpt g ''memberCount'') @ card_link
                                  @ toString rt (getPropOpt g ''id'') @ card_close) groups))"
proof -
  have chars: "set (escapeHtml rt v) \<inter> {CHR ''<'', CHR ''>'', CHR 0x22, CHR 0x27} = {}"
    by (simp only: escapeHtml_charwise escaped_set)
  have amp: "\<forall>i<length (escapeHtml rt v). escapeHtml rt v ! i = CHR ''&'' \<longrightarrow>
         (\<exists>e\<in>set entities. take (length e) (drop i (escapeHtml rt v)) = e)"
    using entityAt_escaped [of "toString rt v"]
    by (simp only: escapeHtml_charwise entityAt_def list_ex_iff)
  have render: "groups \<noteq> [] \<and> renderOwnedGroups rt groups = Inr html \<longrightarrow>
         html = concat (map (\<lambda>g. card_open @ escapeHtml rt (getPropOpt g ''name'') @ card_meta
                                  @ numberFormat rt (getPropOpt g ''memberCount'') @ card_link
                                  @ toString rt (getPropOpt g ''id'') @ card_close) groups)"
    by (auto simp: renderOwnedGroups_def split: sum.splits dest!: mapE_Inr [OF _ groupCard_Inr])
  from chars amp render show ?thesis by blast
qed

theorem escapeHtml_escapes_witness:
  \<open>escapeHtml sampleRuntime (JStr ''<b>"Tom" & Jerry's</b>'')
      = ''&lt;b&gt;&quot;Tom&quot; &amp; Jerry&#39;s&lt;/b&gt;''
   \<and> CHR ''<'' \<notin> set (escapeHtml sampleRuntime (JStr ''<b>"Tom" & Jerry's</b>''))
   \<and> escapeHtml sampleRuntime (JStr ''<b>"Tom" & Jerry's</b>'') ! 9 = CHR ''&''
   \<and> take 6 (drop 9 (escapeHtml sampleRuntime (JStr ''<b>"Tom" & Jerry's</b>''))) = ''&quot;''
   \<and> renderOwnedGroups sampleRuntime
         [JObj [(''id'', JNum (Fin 7)), (''name'', JStr ''<i>A&B</i>''),
                (''memberCount'', JNum (Fin 500))]]
       = Inr (card_open @ ''&lt;i&gt;A&amp;B&lt;/i&gt;'' @ card_meta @ ''500'' @ card_link @ ''7''
              @ card_close)\<close>
  using escapeHtml_escapes [of sampleRuntime \<open>JStr ''<b>"Tom" & Jerry's</b>''\<close>
      "[JObj [(''id'', JNum (Fin 7)), (''name'', JStr ''<i>A&B</i>''),
              (''memberCount'', JNum (Fin 500))]]"
      "card_open @ ''&lt;i&gt;A&amp;B&lt;/i&gt;'' @ card_meta @ ''500'' @ card_link @ ''7''
              @ card_close"]
  by (simp add: escapeHtml_def replaceAll_def renderOwnedGroups_def groupCard_def
      sampleRuntime_def sampleStringOf_def decimalInt_def digitChar_def)

section \<open>Chunks of the batch request\<close>



lemma pool_started_one:
  "items \<noteq> [] \<Longrightarrow> pool_started items (Suc 0) =
     \<lparr>results = replicate (length items) None, nextIndex = Suc 0, workers = [Awaiting 0], rejection = None\<rparr>"
  by (cases items) (simp_all add: pool_started_def worker_count_def pool_init_def start_worker_def worker_enter_def)

lemma mapWithConcurrency_single:
  "mapWithConcurrency [c] (Suc 0) handler [0] =
     Some (case handler c 0 of Inl e \<Rightarrow> Inl e | Inr v \<Rightarrow> Inr [Some v])"
  by (simp add: mapWithConcurrency_def pool_started_one settle_next_def resume_worker_def
      worker_enter_def pool_outcome_def worker_count_def split: sum.splits)







section \<open>collectGames\<close>

lemma gameRecord_id:
  "getProp g ''id'' = Inr (JNum n) \<Longrightarrow> \<exists>r. gameRecord rt g = Inr r \<and> universeId r = n"
  by (cases g) (auto simp: gameRecord_def)

text \<open>
  Claim C8. When the content items of the account and of the communities, in this order,
  have the universe ids 1, 2, 2, 3, \<open>collectGames\<close> returns exactly three entries, for the
  ids 1, 2 and 3, and the entry for id 2 is the record of the later of the two items.
\<close>

theorem collectGames_1223:
  assumes "map (\<lambda>g. getProp g ''id'') (userGames @ groupGames)
             = [Inr (JNum (Fin 1)), Inr (JNum (Fin 2)), Inr (JNum (Fin 2)), Inr (JNum (Fin 3))]"
  shows "\<exists>a earlier later c.
           gameRecord rt ((userGames @ groupGames) ! 1) = Inr earlier
         \<and> gameRecord rt ((userGames @ groupGames) ! 2) = Inr later
         \<and> collectGames rt userGames groupGames = Inr [a, later, c]
         \<and> universeId a = Fin 1 \<and> universeId later = Fin 2 \<and> universeId c = Fin 3"
proof -
  define items where "items = userGames @ groupGames"
  with assms have "map (\<lambda>g. getProp g ''id'') items
             = [Inr (JNum (Fin 1)), Inr (JNum (Fin 2)), Inr (JNum (Fin 2)), Inr (JNum (Fin 3))]"
    by simp
  then obtain g1 g2 g3 g4 where
    items: "items = [g1, g2, g3, g4]"
    and ids: "getProp g1 ''id'' = Inr (JNum (Fin 1))" "getProp g2 ''id'' = Inr (JNum (Fin 2))"
      "getProp g3 ''id'' = Inr (JNum (Fin 2))" "getProp g4 ''id'' = Inr (JNum (Fin 3))"
    by (auto simp: map_eq_Cons_conv)
  from ids obtain r1 r2 r3 r4 where
    recs: "gameRecord rt g1 = Inr r1" "gameRecord rt g2 = Inr r2"
      "gameRecord rt g3 = Inr r3" "gameRecord rt g4 = Inr r4"
    and us: "universeId r1 = Fin 1" "universeId r2 = Fin 2" "universeId r3 = Fin 2"
      "universeId r4 = Fin 3"
    using gameRecord_id by metis
  have "collectGames rt userGames groupGames = Inr [r1, r3, r4]"
    by (simp add: collectGames_def items [unfolded items_def] recs us)
  with recs us show ?thesis by (simp add: items [unfolded items_def])
qed

theorem collectGames_1223_witness:
  "collectGames sampleRuntime
     [JObj [(''id'', JNum (Fin 1)), (''placeVisits'', JNum (Fin 10))],
      JObj [(''id'', JNum (Fin 2)), (''placeVisits'', JNum (Fin 20))]]
     [JObj [(''id'', JNum (Fin 2)), (''rootPlace'', JObj [(''id'', JNum (Fin 5))]),
            (''placeVisits'', JNum (Fin 99))],
      JObj [(''id'', JNum (Fin 3))]]
   = Inr [\<lparr>universeId = Fin 1, rootPlaceId = Fin 0, placeVisits = Fin 10\<rparr>,
          \<lparr>universeId = Fin 2, rootPlaceId = Fin 5, placeVisits = Fin 99\<rparr>,
          \<lparr>universeId = Fin 3, rootPlaceId = Fin 0, placeVisits = Fin 0\<rparr>]"
  using collectGames_1223 [of
     "[JObj [(''id'', JNum (Fin 1)), (''placeVisits'', JNum (Fin 10))],
      JObj [(''id'', JNum (Fin 2)), (''placeVisits'', JNum (Fin 20))]]"
     "[JObj [(''id'', JNum (Fin 2)), (''rootPlace'', JObj [(''id'', JNum (Fin 5))]),
            (''placeVisits'', JNum (Fin 99))],
      JObj [(''id'', JNum (Fin 3))]]" sampleRuntime]
  by (simp add: collectGames_def gameRecord_def)

section \<open>getOwnedGroups\<close>

lemma isOwnedGroup_iff:
  "isOwnedGroup entry \<longleftrightarrow>
     (\<exists>r. getPropOpt (getPropOpt entry ''role'') ''rank'' = JNum (Fin r) \<and> 255 \<le> r)"
proof (cases "getPropOpt (getPropOpt entry ''role'') ''rank''")
  case (JNum n)
  then show ?thesis by (cases n) (simp_all add: isOwnedGroup_def)
qed (simp_all add: isOwnedGroup_def)

lemma dedupe_fold_map_of:
  "map_of (foldl (\<lambda>deduped g. AList.update (ident g) g deduped) acc owned)
     = map_of acc ++ map_of (rev (map (\<lambda>x. (ident x, x)) owned))"
proof (induction owned arbitrary: acc)
  case Nil
  then show ?case by simp
next
  case (Cons g owned)
  show ?case
    by (simp add: Cons.IH update_conv' map_add_def fun_eq_iff split: option.splits)
qed

lemma dedupe_fold_distinct:
  "distinct (map fst acc)
    \<Longrightarrow> distinct (map fst (foldl (\<lambda>deduped g. AList.update (ident g) g deduped) acc owned))"
  by (induction owned arbitrary: acc) (simp_all add: distinct_update)

lemma set_alist_update: "set (AList.update k v al) \<subseteq> insert (k, v) (set al)"
  by (induction al) auto

lemma dedupe_fold_keys:
  "\<forall>p\<in>set acc. ident (snd p) = fst p
    \<Longrightarrow> \<forall>p\<in>set (foldl (\<lambda>deduped g. AList.update (ident g) g deduped) acc owned).
          ident (snd p) = fst p"
proof (induction owned arbitrary: acc)
  case Nil
  then show ?case by simp
next
  case (Cons g owned)
  have "\<forall>p\<in>set (AList.update (ident g) g acc). ident (snd p) = fst p"
    using Cons.prems set_alist_update [of "ident g" g acc] by fastforce
  from Cons.IH [OF this] show ?case by simp
qed

lemma dedupe_fold_dom:
  "fst ` set (foldl (\<lambda>deduped g. AList.update (ident g) g deduped) acc owned)
     = fst ` set acc \<union> ident ` set owned"
  by (induction owned arbitrary: acc) (auto simp: dom_update)

lemma set_sortInsert: "set (sortInsert compare a bs) = insert a (set bs)"
  by (induction bs) auto

lemma set_sortBy: "set (sortBy compare xs) = set xs"
  by (induction xs) (simp_all add: sortBy_def set_sortInsert)

lemma distinct_map_sortInsert:
  "distinct (map f (sortInsert compare a bs)) = (f a \<notin> f ` set bs \<and> distinct (map f bs))"
  by (induction bs) (auto simp: set_sortInsert)

lemma distinct_map_sortBy: "distinct (map f (sortBy compare xs)) = distinct (map f xs)"
  by (induction xs) (simp_all add: sortBy_def distinct_map_sortInsert set_sortBy [unfolded sortBy_def])

lemma dedupeById_props:
  "distinct (map ident (map snd (dedupeById owned)))
   \<and> ident ` set (map snd (dedupeById owned)) = ident ` set owned
   \<and> (\<forall>g\<in>set (map snd (dedupeById owned)).
         map_of (rev (map (\<lambda>x. (ident x, x)) owned)) (ident g) = Some g)"
proof -
  let ?d = "dedupeById owned"
  have keys: "\<forall>p\<in>set ?d. ident (snd p) = fst p"
    unfolding dedupeById_def by (rule dedupe_fold_keys) simp
  then have same: "map ident (map snd ?d) = map fst ?d" by simp
  have dist: "distinct (map fst ?d)"
    unfolding dedupeById_def by (rule dedupe_fold_distinct) simp
  have dom: "fst ` set ?d = ident ` set owned"
    unfolding dedupeById_def by (simp add: dedupe_fold_dom)
  have look: "map_of ?d = map_of (rev (map (\<lambda>x. (ident x, x)) owned))"
    unfolding dedupeById_def by (simp add: dedupe_fold_map_of)
  have "\<forall>g\<in>set (map snd ?d). map_of ?d (ident g) = Some g"
  proof
    fix g assume "g \<in> set (map snd ?d)"
    then obtain p where p: "p \<in> set ?d" "g = snd p" by auto
    with keys have "(ident g, g) \<in> set ?d" by (metis prod.collapse)
    with dist show "map_of ?d (ident g) = Some g" by simp
  qed
  moreover have "ident ` set (map snd ?d) = ident ` set owned"
    using dom same by (metis list.set_map)
  moreover have "distinct (map ident (map snd ?d))"
    using dist by (simp only: same)
  ultimately show ?thesis unfolding look by blast
qed

text \<open>
  Claim C5. \<open>isOwnedGroup\<close> holds of an entry exactly when its role rank is a number that
  is at least 255. When \<open>getOwnedGroups\<close> returns, the list holds the records of the
  entries that \<open>isOwnedGroup\<close> accepts, no two records of the list have the same id, and
  the record kept for an id is the last one seen with that id.
\<close>

theorem getOwnedGroups_owned_deduplicated:
  "(isOwnedGroup entry \<longleftrightarrow>
      (\<exists>r. getPropOpt (getPropOpt entry ''role'') ''rank'' = JNum (Fin r) \<and> 255 \<le> r))
   \<and> (getOwnedGroups rt response = Inr groups \<longrightarrow>
        (\<exists>payload d owned.
            response = Inr payload \<and> getProp payload ''data'' = Inr d
          \<and> mapE (ownedRecord rt) (filter isOwnedGroup (arrayOrEmpty d)) = Inr owned
          \<and> distinct (map ident groups)
          \<and> ident ` set groups = ident ` set owned
          \<and> (\<forall>g\<in>set groups. map_of (rev (map (\<lambda>x. (ident x, x)) owned)) (ident g) = Some g)))"
proof (intro conjI impI)
  show "isOwnedGroup entry \<longleftrightarrow>
      (\<exists>r. getPropOpt (getPropOpt entry ''role'') ''rank'' = JNum (Fin r) \<and> 255 \<le> r)"
    by (rule isOwnedGroup_iff)
next
  assume ret: "getOwnedGroups rt response = Inr groups"
  then obtain payload d owned where
    parts: "response = Inr payload" "getProp payload ''data'' = Inr d"
      "mapE (ownedRecord rt) (filter isOwnedGroup (arrayOrEmpty d)) = Inr owned"
    and groups: "groups = sortBy (\<lambda>a b. nsub (memberCount b) (memberCount a))
                           (map snd (dedupeById owned))"
    by (auto simp: getOwnedGroups_def split: sum.splits)
  from dedupeById_props [of owned] have
    "distinct (map ident groups)" "ident ` set groups = ident ` set owned"
    "\<forall>g\<in>set groups. map_of (rev (map (\<lambda>x. (ident x, x)) owned)) (ident g) = Some g"
    unfolding groups distinct_map_sortBy set_sortBy by blast+
  with parts show "\<exists>payload d owned.
            response = Inr payload \<and> getProp payload ''data'' = Inr d
          \<and> mapE (ownedRecord rt) (filter isOwnedGroup (arrayOrEmpty d)) = Inr owned
          \<and> distinct (map ident groups)
          \<and> ident ` set groups = ident ` set owned
          \<and> (\<forall>g\<in>set groups. map_of (rev (map (\<lambda>x. (ident x, x)) owned)) (ident g) = Some g)"
    by blast
qed

theorem getOwnedGroups_owned_deduplicated_witness:
  "isOwnedGroup (JObj [(''role'', JObj [(''rank'', JNum (Fin 255))])])
   \<and> \<not> isOwnedGroup (JObj [(''role'', JObj [(''rank'', JNum (Fin 254))])])
   \<and> getOwnedGroups sampleRuntime (Inr sampleRoles)
       = Inr [\<lparr>ident = Fin 1, name = JStr ''A2'', memberCount = Fin 30\<rparr>,
              \<lparr>ident = Fin 4, name = JStr ''D'', memberCount = Fin 20\<rparr>]
   \<and> distinct (map ident [\<lparr>ident = Fin 1, name = JStr ''A2'', memberCount = Fin 30\<rparr>,
                            \<lparr>ident = Fin 4, name = JStr ''D'', memberCount = Fin 20\<rparr>])"
proof -
  have run: "getOwnedGroups sampleRuntime (Inr sampleRoles)
       = Inr [\<lparr>ident = Fin 1, name = JStr ''A2'', memberCount = Fin 30\<rparr>,
              \<lparr>ident = Fin 4, name = JStr ''D'', memberCount = Fin 20\<rparr>]"
    by (simp add: getOwnedGroups_def sampleRoles_def isOwnedGroup_def ownedRecord_def
        dedupeById_def sortBy_def)
  have yes: "isOwnedGroup (JObj [(''role'', JObj [(''rank'', JNum (Fin 255))])])"
    using getOwnedGroups_owned_deduplicated
      [of "JObj [(''role'', JObj [(''rank'', JNum (Fin 255))])]" sampleRuntime
        "Inr sampleRoles"
        "[\<lparr>ident = Fin 1, name = JStr ''A2'', memberCount = Fin 30\<rparr>,
          \<lparr>ident = Fin 4, name = JStr ''D'', memberCount = Fin 20\<rparr>]"]
    by simp
  have no: "\<not> isOwnedGroup (JObj [(''role'', JObj [(''rank'', JNum (Fin 254))])])"
    by (simp add: isOwnedGroup_def)
  have "distinct (map ident [\<lparr>ident = Fin 1, name = JStr ''A2'', memberCount = Fin 30\<rparr>,
                            \<lparr>ident = Fin 4, name = JStr ''D'', memberCount = Fin 20\<rparr>])"
    using getOwnedGroups_owned_deduplicated
      [of "JObj [(''role'', JObj [(''rank'', JNum (Fin 255))])]" sampleRuntime
        "Inr sampleRoles"
        "[\<lparr>ident = Fin 1, name = JStr ''A2'', memberCount = Fin 30\<rparr>,
          \<lparr>ident = Fin 4, name = JStr ''D'', memberCount = Fin 20\<rparr>]"] run
    by blast
  with run yes no show ?thesis by blast
qed

section \<open>getPagedGames\<close>

lemma getProp_payload:
  "v \<noteq> JNull \<Longrightarrow> v \<noteq> JUndefined \<Longrightarrow> getProp v k = Inr (getPropOpt v k)"
  by (cases v) auto

lemma page_step:
  assumes "isPayload (responses (length requests))"
    and "(if truthy cursor
          then (case encodeURIComponent rt (toString rt cursor) of
                  Inl e \<Rightarrow> Inl e | Inr c \<Rightarrow> Inr (path @ ''&cursor='' @ c))
          else Inr path) = Inr p"
  shows "getPagedGames_page rt responses path (cursor, games, requests) =
           Inr (pageCursor (responses (length requests)),
                games @ pageItems (responses (length requests)), requests @ [p])"
proof -
  from assms(1) obtain payload where
    "responses (length requests) = Inr payload" "payload \<noteq> JNull" "payload \<noteq> JUndefined"
    by (auto simp: isPayload_def split: sum.splits)
  then show ?thesis
    using assms(2)
    by (simp add: getPagedGames_page_def getProp_payload pageCursor_def pageItems_def)
qed

lemma loop_from:
  assumes "\<forall>j\<le>k. isPayload (responses j)"
    and "\<forall>j<k. truthy (pageCursor (responses j)) \<and> encodable rt (pageCursor (responses j))"
    and "\<not> truthy (pageCursor (responses k))"
    and "length requests = i" and "i \<le> k"
    and "cursor = (if i = 0 then JNull else pageCursor (responses (i - 1)))"
  shows "getPagedGames_loop rt responses path (cursor, games, requests) =
           Some (Inr (games @ concat (map (\<lambda>j. pageItems (responses j)) [i..<Suc k]),
                      requests @ map (pagePath rt responses path) [i..<Suc k]))"
  using assms(4-6)
proof (induction "k - i" arbitrary: i cursor games requests)
  case 0
  then have ik: "i = k" by simp
  have path: "(if truthy cursor
          then (case encodeURIComponent rt (toString rt cursor) of
                  Inl e \<Rightarrow> Inl e | Inr c \<Rightarrow> Inr (path @ ''&cursor='' @ c))
          else Inr path) = Inr (pagePath rt responses path i)"
  proof (cases "i = 0")
    case True
    with 0 show ?thesis by (simp add: pagePath_def)
  next
    case False
    with 0 assms(2) ik have "truthy cursor" "encodable rt cursor"
      by (simp_all add: ik)
    then show ?thesis using False 0
      by (auto simp: pagePath_def encodedCursor_def encodable_def split: sum.splits)
  qed
  have "isPayload (responses (length requests))" using assms(1) 0 by simp
  from page_step [where responses = responses and requests = requests and games = games,
      OF this path] show ?case
    using assms(3) 0 ik
    by (subst getPagedGames_loop.simps) simp
next
  case (Suc n)
  then have ik: "i < k" by simp
  have path: "(if truthy cursor
          then (case encodeURIComponent rt (toString rt cursor) of
                  Inl e \<Rightarrow> Inl e | Inr c \<Rightarrow> Inr (path @ ''&cursor='' @ c))
          else Inr path) = Inr (pagePath rt responses path i)"
  proof (cases "i = 0")
    case True
    with Suc show ?thesis by (simp add: pagePath_def)
  next
    case False
    with Suc assms(2) ik have "truthy cursor" "encodable rt cursor"
      by simp_all
    then show ?thesis using False Suc
      by (auto simp: pagePath_def encodedCursor_def encodable_def split: sum.splits)
  qed
  have "isPayload (responses (length requests))" using assms(1) Suc ik by simp
  note step = page_step [where responses = responses and requests = requests and games = games,
      OF this path]
  have next_truthy: "truthy (pageCursor (responses i))" using assms(2) ik by simp
  have IH: "getPagedGames_loop rt responses path
              (pageCursor (responses i), games @ pageItems (responses i),
               requests @ [pagePath rt responses path i]) =
           Some (Inr ((games @ pageItems (responses i))
                        @ concat (map (\<lambda>j. pageItems (responses j)) [Suc i..<Suc k]),
                      (requests @ [pagePath rt responses path i])
                        @ map (pagePath rt responses path) [Suc i..<Suc k]))"
    using Suc.hyps(2) Suc.prems ik
    by (intro Suc.hyps(1)) simp_all
  have upt: "[i..<Suc k] = i # [Suc i..<Suc k]" using ik by (simp add: upt_conv_Cons)
  show ?case
    using step next_truthy IH Suc.prems(1)
    by (subst getPagedGames_loop.simps) (simp add: upt del: upt_Suc)
qed

text \<open>
  Claim C1. If the requests of a call are answered with payloads up to one whose
  \<open>nextPageCursor\<close> is absent (and the cursors before it can be encoded), then
  \<open>getPagedGames\<close> returns. With \<open>m\<close> the first page whose cursor is not truthy, it returns
  the item arrays of the pages 0 to \<open>m\<close> concatenated in order, after requesting the plain
  path first and then, for each further page, the path with the cursor of the response
  just before it.
\<close>

theorem getPagedGames_collects:
  assumes "\<forall>j\<le>k. isPayload (responses j)"
    and "pageCursor (responses k) = JUndefined \<or> pageCursor (responses k) = JNull"
    and "\<forall>j<k. truthy (pageCursor (responses j)) \<longrightarrow> encodable rt (pageCursor (responses j))"
  shows "\<exists>m\<le>k. (\<forall>j<m. truthy (pageCursor (responses j)))
            \<and> \<not> truthy (pageCursor (responses m))
            \<and> getPagedGames rt responses path =
                Some (Inr (concat (map (\<lambda>j. pageItems (responses j)) [0..<Suc m]),
                           map (pagePath rt responses path) [0..<Suc m]))"
proof -
  define m where "m = (LEAST j. \<not> truthy (pageCursor (responses j)))"
  have stop: "\<not> truthy (pageCursor (responses k))" using assms(2) by auto
  then have m_stop: "\<not> truthy (pageCursor (responses m))"
    unfolding m_def by (rule LeastI)
  have m_le: "m \<le> k" unfolding m_def using stop by (rule Least_le)
  have m_first: "\<forall>j<m. truthy (pageCursor (responses j))"
    unfolding m_def using not_less_Least by blast
  have "getPagedGames_loop rt responses path (JNull, [], []) =
           Some (Inr ([] @ concat (map (\<lambda>j. pageItems (responses j)) [0..<Suc m]),
                      [] @ map (pagePath rt responses path) [0..<Suc m]))"
  proof (rule loop_from)
    show "\<forall>j\<le>m. isPayload (responses j)" using assms(1) m_le by simp
    show "\<forall>j<m. truthy (pageCursor (responses j)) \<and> encodable rt (pageCursor (responses j))"
      using assms(3) m_first m_le by simp
    show "\<not> truthy (pageCursor (responses m))" by (rule m_stop)
  qed simp_all
  then have "getPagedGames rt responses path =
                Some (Inr (concat (map (\<lambda>j. pageItems (responses j)) [0..<Suc m]),
                           map (pagePath rt responses path) [0..<Suc m]))"
    by (simp add: getPagedGames_def)
  with m_le m_first m_stop show ?thesis by blast
qed

theorem getPagedGames_collects_witness:
  "isPayload (samplePages 0) \<and> isPayload (samplePages 1) \<and> isPayload (samplePages 2)
   \<and> pageCursor (samplePages 2) = JUndefined
   \<and> getPagedGames sampleRuntime samplePages ''/v2/users/1/games?limit=50'' =
        Some (Inr ([JStr ''g1'', JStr ''g2'', JStr ''g3'', JStr ''g4''],
                   [''/v2/users/1/games?limit=50'',
                    ''/v2/users/1/games?limit=50&cursor=abc'',
                    ''/v2/users/1/games?limit=50&cursor=d%20e'']))"
proof -
  have pay: "\<forall>j\<le>2. isPayload (samplePages j)"
    by (simp add: samplePages_def isPayload_def)
  have absent: "pageCursor (samplePages 2) = JUndefined \<or> pageCursor (samplePages 2) = JNull"
    by (simp add: samplePages_def pageCursor_def)
  have enc: "\<forall>j<2. truthy (pageCursor (samplePages j))
               \<longrightarrow> encodable sampleRuntime (pageCursor (samplePages j))"
    by (simp add: encodable_def sampleRuntime_def)
  from getPagedGames_collects [OF pay absent enc, of "''/v2/users/1/games?limit=50''"]
  obtain m where m: "m \<le> 2" "\<forall>j<m. truthy (pageCursor (samplePages j))"
      "\<not> truthy (pageCursor (samplePages m))"
    and run: "getPagedGames sampleRuntime samplePages ''/v2/users/1/games?limit=50'' =
                Some (Inr (concat (map (\<lambda>j. pageItems (samplePages j)) [0..<Suc m]),
                           map (pagePath sampleRuntime samplePages ''/v2/users/1/games?limit=50'')
                             [0..<Suc m]))"
    by blast
  from m(1) have "m = 0 \<or> m = 1 \<or> m = 2" by auto
  with m(3) have m2: "m = 2" by (auto simp: samplePages_def pageCursor_def)
  have enc1: "percentEncode ''abc'' = ''abc''" by code_simp
  have enc2: "percentEncode ''d e'' = ''d%20e''" by code_simp
  have up: "[0..<Suc 2] = [0, 1, 2]" by (simp add: upt_rec)
  have "getPagedGames sampleRuntime samplePages ''/v2/users/1/games?limit=50'' =
        Some (Inr ([JStr ''g1'', JStr ''g2'', JStr ''g3'', JStr ''g4''],
                   [''/v2/users/1/games?limit=50'',
                    ''/v2/users/1/games?limit=50&cursor=abc'',
                    ''/v2/users/1/games?limit=50&cursor=d%20e'']))"
    unfolding run m2 up
    by (simp add: samplePages_def pageItems_def pagePath_def pageCursor_def encodedCursor_def
        sampleRuntime_def enc1 enc2)
  moreover have "isPayload (samplePages 0)" "isPayload (samplePages 1)" "isPayload (samplePages 2)"
    using pay by simp_all
  moreover have "pageCursor (samplePages 2) = JUndefined"
    by (simp add: samplePages_def pageCursor_def)
  ultimately show ?thesis by blast
qed

section \<open>fetchAbsoluteJson\<close>

lemma fetchAbsoluteJson_unrolled:
  "fetchAbsoluteJson rt attempts =
     (case attemptResult rt (attempts 1) of
        Inr v \<Rightarrow> (Inr v, [], 1)
      | Inl e1 \<Rightarrow>
          (case attemptResult rt (attempts 2) of
             Inr v \<Rightarrow> (Inr v, [backoffMs rt e1 1], 2)
           | Inl e2 \<Rightarrow>
               (case attemptResult rt (attempts 3) of
                  Inr v \<Rightarrow> (Inr v, [backoffMs rt e1 1, backoffMs rt e2 2], 3)
                | Inl e3 \<Rightarrow>
                    (Inl e3, [backoffMs rt e1 1, backoffMs rt e2 2, backoffMs rt e3 3], 3))))"
  unfolding fetchAbsoluteJson_def
  apply (subst fetchAbsoluteJson_loop.simps)
  apply (subst fetchAbsoluteJson_loop.simps)
  apply (subst fetchAbsoluteJson_loop.simps)
  apply (subst fetchAbsoluteJson_loop.simps)
  apply (simp add: eval_nat_numeral split: sum.splits)
  done

lemma attemptResult_ok:
  "ok response \<Longrightarrow> attemptResult rt (Inr response) = jsonBody response"
  by (simp add: attemptResult_def)

lemma attemptResult_not_ok:
  "\<not> ok response \<Longrightarrow>
     \<exists>e. attemptResult rt (Inr response) = Inl e
       \<and> backoffMs rt e attempt =
           (case toNumber rt (retryAfterHeader response) of
              Fin s \<Rightarrow> if 0 < s then Fin (s * 1000) else quadraticBackoff attempt
            | NaN \<Rightarrow> quadraticBackoff attempt)"
  by (cases "toNumber rt (retryAfterHeader response)")
     (simp_all add: attemptResult_def backoffMs_def quadraticBackoff_def Let_def)

lemma backoffMs_plain:
  "retryAfterMs e = JUndefined \<Longrightarrow> backoffMs rt e attempt = quadraticBackoff attempt"
  by (simp add: backoffMs_def quadraticBackoff_def)

lemma fetch_count: "snd (snd (fetchAbsoluteJson rt attempts)) \<in> {1, 2, 3}"
  by (simp add: fetchAbsoluteJson_unrolled split: sum.splits)


text \<open>
  Claim C7, as stated, fails where the server supplies a retry-after of 0 seconds: the
  waits are the quadratic backoffs 300, 1200 and 2700 ms, not the supplied duration.
\<close>

theorem fetchAbsoluteJson_retries_counterexample:
  "fst (snd (fetchAbsoluteJson sampleRuntime busyAttempts)) = [Fin 300, Fin 1200, Fin 2700]
   \<and> claimedWait sampleRuntime busyResponse 1 = Fin 0"
  by (simp add: fetchAbsoluteJson_unrolled attemptResult_def ok_def backoffMs_def
      busyAttempts_def busyResponse_def claimedWait_def sampleRuntime_def sampleNumberOf_def
      digitValue_def)

text \<open>
  Claim C7, amended. \<open>fetchAbsoluteJson\<close> makes one, two or three \<open>fetch\<close> calls. The first
  attempt that yields a value ends the call with it; a response with a status from 200 to
  299 yields what \<open>response.json()\<close> yields; every other response is a failed attempt; after
  three failed attempts the error of the third is raised. After each failed attempt, the
  last included, the call waits: for a response outside 200 to 299 whose retry-after header
  converts to a positive number, that number of seconds; for a header that is absent, zero,
  negative or not a number, and for an error that carries no retry-after, 300 ms times
  the square of the attempt number.
\<close>

theorem fetchAbsoluteJson_retries:
  "fetchAbsoluteJson rt attempts =
     (case attemptResult rt (attempts 1) of
        Inr v \<Rightarrow> (Inr v, [], 1)
      | Inl e1 \<Rightarrow>
          (case attemptResult rt (attempts 2) of
             Inr v \<Rightarrow> (Inr v, [backoffMs rt e1 1], 2)
           | Inl e2 \<Rightarrow>
               (case attemptResult rt (attempts 3) of
                  Inr v \<Rightarrow> (Inr v, [backoffMs rt e1 1, backoffMs rt e2 2], 3)
                | Inl e3 \<Rightarrow>
                    (Inl e3, [backoffMs rt e1 1, backoffMs rt e2 2, backoffMs rt e3 3], 3))))
   \<and> snd (snd (fetchAbsoluteJson rt attempts)) \<in> {1, 2, 3}
   \<and> (ok response \<longrightarrow> attemptResult rt (Inr response) = jsonBody response)
   \<and> (\<not> ok response \<longrightarrow>
        (\<exists>e. attemptResult rt (Inr response) = Inl e
           \<and> backoffMs rt e attempt =
               (case toNumber rt (retryAfterHeader response) of
                  Fin s \<Rightarrow> if 0 < s then Fin (s * 1000) else quadraticBackoff attempt
                | NaN \<Rightarrow> quadraticBackoff attempt)))
   \<and> (retryAfterMs e = JUndefined \<longrightarrow> backoffMs rt e attempt = quadraticBackoff attempt)"
  using fetchAbsoluteJson_unrolled [of rt attempts] fetch_count [of rt attempts]
    attemptResult_ok [of response rt] attemptResult_not_ok [of response rt attempt]
    backoffMs_plain [of e rt attempt]
  by blast

theorem fetchAbsoluteJson_retries_witness:
  "fetchAbsoluteJson sampleRuntime sampleAttempts = (Inr (JObj []), [Fin 2000, Fin 1200], 3)
   \<and> \<not> ok limitedResponse
   \<and> attemptResult sampleRuntime (Inr limitedResponse) = Inl (HttpError 429 (JNum (Fin 2000)))
   \<and> backoffMs sampleRuntime (HttpError 429 (JNum (Fin 2000))) 1 = Fin 2000
   \<and> retryAfterMs FetchRejected = JUndefined
   \<and> backoffMs sampleRuntime FetchRejected 2 = Fin 1200"
  using fetchAbsoluteJson_retries [of sampleRuntime sampleAttempts limitedResponse 1 FetchRejected]
  by (simp add: attemptResult_def ok_def backoffMs_def sampleAttempts_def limitedResponse_def
      sampleRuntime_def sampleNumberOf_def digitValue_def quadraticBackoff_def)

section \<open>readSnapshot and writeSnapshot\<close>

text \<open>
  Claim C6 at an entry without a positive timestamp: \<open>updatedAtMs\<close> is the string
  \<open>"soon"\<close>, \<open>Number\<close> makes it \<open>NaN\<close>, both comparisons with \<open>NaN\<close> are false, and
  \<open>readSnapshot\<close> returns the entry instead of \<open>null\<close>.
\<close>

theorem readSnapshot_timestamp_not_a_number:
  "readSnapshot sampleRuntime staleStore 5000 ''mensch_portfolio_snapshot_v2'' 600000
     = JObj [(''updatedAtMs'', JStr ''soon'')]"
  by (simp add: readSnapshot_def staleStore_def getItem_def sampleRuntime_def sampleDocuments_def
      sampleNumberOf_def digitValue_def)

theorem readSnapshot_timestamp_not_a_number_witness:
  "readSnapshot sampleRuntime staleStore 5000 ''mensch_portfolio_snapshot_v2'' 600000 \<noteq> JNull
   \<and> toNumber sampleRuntime (JStr ''soon'') = NaN"
  using readSnapshot_timestamp_not_a_number
  by (simp add: sampleRuntime_def sampleNumberOf_def digitValue_def)

text \<open>
  The other parts of the claim hold: \<open>readSnapshot\<close> returns \<open>null\<close> for a missing or empty
  entry, for one that does not parse, for one that is not an object, for a timestamp that
  is a number not above 0, and for one older than \<open>maxAgeMs\<close>; and a snapshot object that
  survives \<open>JSON.stringify\<close> and \<open>JSON.parse\<close> is read back after a write that the storage
  accepted, when its timestamp is a positive number within the age ceiling.
\<close>

lemma readSnapshot_missing:
  "getItem store key = Inr None \<or> getItem store key = Inr (Some [])
     \<or> (\<exists>e. getItem store key = Inl e)
   \<Longrightarrow> readSnapshot rt store now key maxAgeMs = JNull"
  by (auto simp: readSnapshot_def)

lemma readSnapshot_unparsed:
  "getItem store key = Inr (Some raw) \<Longrightarrow> jsonParse rt raw = Inl e
   \<Longrightarrow> readSnapshot rt store now key maxAgeMs = JNull"
  by (simp add: readSnapshot_def)

lemma readSnapshot_not_object:
  "getItem store key = Inr (Some raw) \<Longrightarrow> jsonParse rt raw = Inr parsed
   \<Longrightarrow> \<not> typeofObject parsed \<or> parsed = JNull
   \<Longrightarrow> readSnapshot rt store now key maxAgeMs = JNull"
  by (auto simp: readSnapshot_def)

lemma readSnapshot_not_positive:
  "getItem store key = Inr (Some raw) \<Longrightarrow> jsonParse rt raw = Inr parsed
   \<Longrightarrow> toNumber rt (nullish (getPropOpt parsed ''updatedAtMs'') (JNum (Fin 0))) = Fin u
   \<Longrightarrow> u \<le> 0
   \<Longrightarrow> readSnapshot rt store now key maxAgeMs = JNull"
  by (cases parsed) (auto simp: readSnapshot_def)

lemma readSnapshot_too_old:
  "getItem store key = Inr (Some raw) \<Longrightarrow> jsonParse rt raw = Inr parsed
   \<Longrightarrow> toNumber rt (nullish (getPropOpt parsed ''updatedAtMs'') (JNum (Fin 0))) = Fin u
   \<Longrightarrow> now - u > maxAgeMs
   \<Longrightarrow> readSnapshot rt store now key maxAgeMs = JNull"
  by (cases parsed) (auto simp: readSnapshot_def)

lemma readSnapshot_after_write:
  assumes "usable store" and "accepts store key (jsonStringify rt (JObj kvs))"
    and "jsonStringify rt (JObj kvs) \<noteq> []"
    and "jsonParse rt (jsonStringify rt (JObj kvs)) = Inr (JObj kvs)"
    and "toNumber rt (nullish (getPropOpt (JObj kvs) ''updatedAtMs'') (JNum (Fin 0))) = Fin u"
    and "0 < u" and "now - u \<le> maxAgeMs"
  shows "readSnapshot rt (writeSnapshot rt store key (JObj kvs)) now key maxAgeMs = JObj kvs"
  using assms
  by (simp add: readSnapshot_def writeSnapshot_def setItem_def getItem_def)

section \<open>The playing total\<close>

lemma universeChunks_small:
  "0 < length ids \<Longrightarrow> length ids \<le> 100 \<Longrightarrow> universeChunks ids = [ids]"
  by (simp add: universeChunks_def slice_def)

lemma getUniversePlayingById_small:
  assumes "0 < length ids" "length ids \<le> 100"
  shows "getUniversePlayingById rt responses ids =
           Some (case responses 0 of
                   Inl e \<Rightarrow> Inl e
                 | Inr response \<Rightarrow> playingResponses_loop rt [Some response] [])"
  using assms
  by (auto simp add: getUniversePlayingById_def universeChunks_small mapWithConcurrency_single Let_def
      split: sum.splits)

lemma buildTotals_loop_playing:
  "snd (buildTotals_loop gs rol upb v p) = foldl (\<lambda>total g. nadd total (contribution rol upb g)) p gs"
  by (induction gs arbitrary: v p) (simp_all add: contribution_def Let_def)

lemma buildTotals_playing:
  "playing (buildTotals ownedGroups allGames rol upb) = sumBy (contribution rol upb) allGames"
  using buildTotals_loop_playing [of allGames rol upb "Fin 0" "Fin 0"]
  by (cases "buildTotals_loop allGames rol upb (Fin 0) (Fin 0)")
     (simp add: buildTotals_def sumBy_def)

text \<open>
  Claim C4, as stated, fails in a cycle where the secondary provider answers but does not
  list the root place of an item: the primary provider, which reports 7 players for the
  second universe, is not asked, and the item counts 0, so the total is 5 and not 12.
\<close>

theorem refreshTotals_playing_counterexample:
  "getUniversePlayingById sampleRuntime samplePrimary (map universeId sampleGames)
      = Some (Inr [(Fin 1, Fin 3), (Fin 2, Fin 7)])
   \<and> sumBy (claimedContribution sampleRolimons [(Fin 1, Fin 3), (Fin 2, Fin 7)]) sampleGames = Fin 12
   \<and> refreshTotals sampleRuntime samplePrimary [] sampleGames sampleRolimons
      = Some (Inr \<lparr>visits = Fin 300, groupMembers = Fin 0, playing = Fin 5\<rparr>)"
  by (simp add: getUniversePlayingById_small sampleGames_def samplePrimary_def sampleRolimons_def
      sumBy_def claimedContribution_def refreshTotals_def buildTotals_def)

text \<open>
  Claim C4, amended. In every refresh cycle that reaches its totals, the playing total is
  the sum over the merged list of each item's contribution: the figure of the secondary
  provider for the item's root place when the root place id is positive and the provider
  lists it; otherwise the figure of \<open>universePlayingById\<close> for the item's universe id, or 0
  when it has none, where \<open>universePlayingById\<close> holds the figures of the primary provider
  only in a cycle in which the map of the secondary provider is empty, and is empty in
  every other cycle.
\<close>

theorem refreshTotals_playing:
  assumes "refreshTotals rt responses ownedGroups allGames rolimonsPlayersByPlace = Some (Inr t)"
  shows "\<exists>universePlayingById.
           (if rolimonsPlayersByPlace = []
            then getUniversePlayingById rt responses (map universeId allGames)
                   = Some (Inr universePlayingById)
            else universePlayingById = [])
         \<and> playing t = sumBy (contribution rolimonsPlayersByPlace universePlayingById) allGames"
  using assms
  by (auto simp: refreshTotals_def Let_def buildTotals_playing split: if_splits option.splits sum.splits)

theorem refreshTotals_playing_witness:
  "refreshTotals sampleRuntime samplePrimary [] sampleGames sampleRolimons
      = Some (Inr \<lparr>visits = Fin 300, groupMembers = Fin 0, playing = Fin 5\<rparr>)
   \<and> sumBy (contribution sampleRolimons []) sampleGames = Fin 5
   \<and> refreshTotals sampleRuntime samplePrimary [] sampleGames []
      = Some (Inr \<lparr>visits = Fin 300, groupMembers = Fin 0, playing = Fin 10\<rparr>)
   \<and> sumBy (contribution [] [(Fin 1, Fin 3), (Fin 2, Fin 7)]) sampleGames = Fin 10"
  using refreshTotals_playing [of sampleRuntime samplePrimary "[]" sampleGames sampleRolimons
      "\<lparr>visits = Fin 300, groupMembers = Fin 0, playing = Fin 5\<rparr>"]
  by (simp add: getUniversePlayingById_small sampleGames_def samplePrimary_def sampleRolimons_def
      sumBy_def contribution_def refreshTotals_def buildTotals_def)

section \<open>mapWithConcurrency\<close>

lemma worker_enter_eq:
  "worker_enter items s = (entered items (nextIndex s), s\<lparr>nextIndex := Suc (nextIndex s)\<rparr>)"
  by (simp add: worker_enter_def entered_def Let_def)

lemma start_worker_eq:
  "start_worker items s =
     s\<lparr>nextIndex := Suc (nextIndex s), workers := workers s @ [entered items (nextIndex s)]\<rparr>"
  by (simp add: start_worker_def worker_enter_eq)

lemma resume_worker_cases:
  assumes "resume_worker items handler w s = Some s'"
  obtains (fulfilled) i v where "w < length (workers s)" "workers s ! w = Awaiting i"
      "handler (items ! i) i = Inr v"
      "s' = s\<lparr>results := (results s)[i := Some v], nextIndex := Suc (nextIndex s),
              workers := (workers s)[w := entered items (nextIndex s)]\<rparr>"
  | (rejected) i e where "w < length (workers s)" "workers s ! w = Awaiting i"
      "handler (items ! i) i = Inl e"
      "s' = s\<lparr>workers := (workers s)[w := Rejected],
              rejection := (case rejection s of None \<Rightarrow> Some e | Some e' \<Rightarrow> Some e')\<rparr>"
  using assms
  by (auto simp: resume_worker_def worker_enter_eq split: if_splits worker.splits sum.splits)

lemma pool_invI:
  assumes "length (results s) = length items"
    and "length (workers s) \<le> worker_count items concurrency"
    and "\<And>i. Awaiting i \<in> set (workers s) \<Longrightarrow> i < length items \<and> i < nextIndex s"
    and "Returned \<in> set (workers s) \<Longrightarrow> length items \<le> nextIndex s"
    and "Rejected \<in> set (workers s) \<Longrightarrow> rejection s \<noteq> None"
    and "\<And>e. rejection s = Some e \<Longrightarrow> \<exists>i<length items. handler (items ! i) i = Inl e"
    and "\<And>i v. i < length items \<Longrightarrow> results s ! i = Some v \<Longrightarrow> handler (items ! i) i = Inr v"
    and "\<And>i. i < length items \<Longrightarrow> i < nextIndex s \<Longrightarrow>
          results s ! i \<noteq> None \<or> Awaiting i \<in> set (workers s)
          \<or> (\<exists>e. handler (items ! i) i = Inl e)"
  shows "pool_inv items concurrency handler s"
  unfolding pool_inv_def using assms by blast

lemma pool_invD:
  assumes "pool_inv items concurrency handler s"
  shows "length (results s) = length items"
    and "length (workers s) \<le> worker_count items concurrency"
    and "\<And>i. Awaiting i \<in> set (workers s) \<Longrightarrow> i < length items \<and> i < nextIndex s"
    and "Returned \<in> set (workers s) \<Longrightarrow> length items \<le> nextIndex s"
    and "Rejected \<in> set (workers s) \<Longrightarrow> rejection s \<noteq> None"
    and "\<And>e. rejection s = Some e \<Longrightarrow> \<exists>i<length items. handler (items ! i) i = Inl e"
    and "\<And>i v. i < length items \<Longrightarrow> results s ! i = Some v \<Longrightarrow> handler (items ! i) i = Inr v"
    and "\<And>i. i < length items \<Longrightarrow> i < nextIndex s \<Longrightarrow>
          results s ! i \<noteq> None \<or> Awaiting i \<in> set (workers s)
          \<or> (\<exists>e. handler (items ! i) i = Inl e)"
  using assms unfolding pool_inv_def by blast+

lemma pool_inv_init: "pool_inv items concurrency handler (pool_init items)"
  by (rule pool_invI) (simp_all add: pool_init_def)

lemma entered_eq:
  "entered items k = Awaiting i \<longleftrightarrow> i = k \<and> k < length items"
  "Awaiting i = entered items k \<longleftrightarrow> i = k \<and> k < length items"
  "entered items k = Returned \<longleftrightarrow> length items \<le> k"
  "Returned = entered items k \<longleftrightarrow> length items \<le> k"
  "entered items k \<noteq> Rejected"
  "Rejected \<noteq> entered items k"
  by (auto simp: entered_def)

lemma pool_inv_start:
  assumes inv: "pool_inv items concurrency handler s"
    and "length (workers s) < worker_count items concurrency"
  shows "pool_inv items concurrency handler (start_worker items s)"
proof (rule pool_invI)
  note D = pool_invD [OF inv]
  let ?s = "start_worker items s"
  show "length (results ?s) = length items" using D(1) by (simp add: start_worker_eq)
  show "length (workers ?s) \<le> worker_count items concurrency"
    using assms(2) by (simp add: start_worker_eq)
  show "i < length items \<and> i < nextIndex ?s" if "Awaiting i \<in> set (workers ?s)" for i
    using that D(3) [of i] by (auto simp: start_worker_eq entered_eq)
  show "length items \<le> nextIndex ?s" if "Returned \<in> set (workers ?s)"
    using that D(4) by (auto simp: start_worker_eq entered_eq)
  show "rejection ?s \<noteq> None" if "Rejected \<in> set (workers ?s)"
    using that D(5) by (auto simp: start_worker_eq entered_eq)
  show "\<exists>i<length items. handler (items ! i) i = Inl e" if "rejection ?s = Some e" for e
    using that D(6) [of e] by (simp add: start_worker_eq)
  show "handler (items ! i) i = Inr v" if "i < length items" "results ?s ! i = Some v" for i v
    using that D(7) [of i v] by (simp add: start_worker_eq)
  show "results ?s ! i \<noteq> None \<or> Awaiting i \<in> set (workers ?s)
          \<or> (\<exists>e. handler (items ! i) i = Inl e)"
    if "i < length items" "i < nextIndex ?s" for i
  proof (cases "i < nextIndex s")
    case True
    with D(8) [of i] that(1) show ?thesis by (auto simp: start_worker_eq)
  next
    case False
    with that have "i = nextIndex s" by (simp add: start_worker_eq)
    with that(1) show ?thesis by (simp add: start_worker_eq entered_def)
  qed
qed

lemma set_list_update_cases:
  "x \<in> set (xs[w := y]) \<Longrightarrow> x = y \<or> x \<in> set xs"
  using set_update_subset_insert [of xs w y] by blast

lemma set_list_update_other:
  assumes "x \<in> set xs" and "x \<noteq> xs ! w"
  shows "x \<in> set (xs[w := y])"
proof -
  from assms(1) obtain k where k: "k < length xs" "xs ! k = x"
    by (auto simp: in_set_conv_nth)
  with assms(2) have "k \<noteq> w" by blast
  with k have "k < length (xs[w := y])" "xs[w := y] ! k = x" by simp_all
  then show ?thesis by (metis nth_mem)
qed

lemma pool_inv_fulfilled:
  assumes inv: "pool_inv items concurrency handler s"
    and w: "w < length (workers s)" "workers s ! w = Awaiting i"
    and h: "handler (items ! i) i = Inr v"
    and s': "s' = s\<lparr>results := (results s)[i := Some v], nextIndex := Suc (nextIndex s),
              workers := (workers s)[w := entered items (nextIndex s)]\<rparr>"
  shows "pool_inv items concurrency handler s'"
proof (rule pool_invI)
  note D = pool_invD [OF inv]
  from w have mem: "Awaiting i \<in> set (workers s)" by (metis nth_mem)
  with D(3) have i: "i < length items" "i < nextIndex s" by blast+
  show "length (results s') = length items" using D(1) by (simp add: s')
  show "length (workers s') \<le> worker_count items concurrency" using D(2) by (simp add: s')
  show "j < length items \<and> j < nextIndex s'" if "Awaiting j \<in> set (workers s')" for j
  proof -
    from that have "Awaiting j = entered items (nextIndex s) \<or> Awaiting j \<in> set (workers s)"
      using set_list_update_cases [of "Awaiting j" "workers s" w "entered items (nextIndex s)"] by (simp add: s')
    then show ?thesis using D(3) [of j] by (auto simp: s' entered_eq)
  qed
  show "length items \<le> nextIndex s'" if "Returned \<in> set (workers s')"
  proof -
    from that have "Returned = entered items (nextIndex s) \<or> Returned \<in> set (workers s)"
      using set_list_update_cases [of "Returned" "workers s" w "entered items (nextIndex s)"] by (simp add: s')
    then show ?thesis using D(4) by (auto simp: s' entered_eq)
  qed
  show "rejection s' \<noteq> None" if "Rejected \<in> set (workers s')"
  proof -
    from that have "Rejected = entered items (nextIndex s) \<or> Rejected \<in> set (workers s)"
      using set_list_update_cases [of "Rejected" "workers s" w "entered items (nextIndex s)"] by (simp add: s')
    then show ?thesis using D(5) by (auto simp: s' entered_eq)
  qed
  show "\<exists>i<length items. handler (items ! i) i = Inl e" if "rejection s' = Some e" for e
    using that D(6) [of e] by (simp add: s')
  show "handler (items ! j) j = Inr u" if "j < length items" "results s' ! j = Some u" for j u
  proof (cases "j = i")
    case True
    with that h D(1) show ?thesis by (simp add: s')
  next
    case False
    with that D(7) [of j u] show ?thesis by (simp add: s')
  qed
  show "results s' ! j \<noteq> None \<or> Awaiting j \<in> set (workers s')
          \<or> (\<exists>e. handler (items ! j) j = Inl e)"
    if "j < length items" "j < nextIndex s'" for j
  proof (cases "j = i")
    case True
    with i D(1) show ?thesis by (simp add: s')
  next
    case ji: False
    show ?thesis
    proof (cases "j = nextIndex s")
      case True
      with that(1) have "entered items (nextIndex s) = Awaiting j" by (simp add: entered_def)
      with w(1) have "Awaiting j \<in> set (workers s')"
        unfolding s' by (simp add: set_update_memI)
      then show ?thesis by blast
    next
      case False
      with that(2) have "j < nextIndex s" by (simp add: s')
      from D(8) [OF that(1) this] consider "results s ! j \<noteq> None"
        | "Awaiting j \<in> set (workers s)" | "\<exists>e. handler (items ! j) j = Inl e"
        by blast
      then show ?thesis
      proof cases
        case 1
        with ji show ?thesis by (simp add: s')
      next
        case 2
        with ji w(2) have "Awaiting j \<in> set ((workers s)[w := entered items (nextIndex s)])"
          by (intro set_list_update_other) simp_all
        then show ?thesis by (simp add: s')
      next
        case 3
        then show ?thesis by blast
      qed
    qed
  qed
qed

lemma pool_inv_rejected:
  assumes inv: "pool_inv items concurrency handler s"
    and w: "w < length (workers s)" "workers s ! w = Awaiting i"
    and h: "handler (items ! i) i = Inl e"
    and s': "s' = s\<lparr>workers := (workers s)[w := Rejected],
              rejection := (case rejection s of None \<Rightarrow> Some e | Some e' \<Rightarrow> Some e')\<rparr>"
  shows "pool_inv items concurrency handler s'"
proof (rule pool_invI)
  note D = pool_invD [OF inv]
  from w have mem: "Awaiting i \<in> set (workers s)" by (metis nth_mem)
  with D(3) have i: "i < length items" "i < nextIndex s" by blast+
  show "length (results s') = length items" using D(1) by (simp add: s')
  show "length (workers s') \<le> worker_count items concurrency" using D(2) by (simp add: s')
  show "j < length items \<and> j < nextIndex s'" if "Awaiting j \<in> set (workers s')" for j
  proof -
    from that have "Awaiting j = Rejected \<or> Awaiting j \<in> set (workers s)"
      using set_list_update_cases [of "Awaiting j" "workers s" w "Rejected"] by (simp add: s')
    then show ?thesis using D(3) [of j] by (auto simp: s')
  qed
  show "length items \<le> nextIndex s'" if "Returned \<in> set (workers s')"
  proof -
    from that have "Returned = Rejected \<or> Returned \<in> set (workers s)"
      using set_list_update_cases [of "Returned" "workers s" w "Rejected"] by (simp add: s')
    then show ?thesis using D(4) by (auto simp: s')
  qed
  show "rejection s' \<noteq> None" if "Rejected \<in> set (workers s')"
    by (simp add: s' split: option.splits)
  show "\<exists>i<length items. handler (items ! i) i = Inl e'" if "rejection s' = Some e'" for e'
  proof (cases "rejection s")
    case None
    with that have "e' = e" by (simp add: s')
    with h i show ?thesis by blast
  next
    case (Some a)
    with that have "rejection s = Some e'" by (simp add: s')
    with D(6) show ?thesis by blast
  qed
  show "handler (items ! j) j = Inr u" if "j < length items" "results s' ! j = Some u" for j u
    using that D(7) [of j u] by (simp add: s')
  show "results s' ! j \<noteq> None \<or> Awaiting j \<in> set (workers s')
          \<or> (\<exists>e. handler (items ! j) j = Inl e)"
    if "j < length items" "j < nextIndex s'" for j
  proof (cases "j = i")
    case True
    with h show ?thesis by blast
  next
    case ji: False
    from that(2) have "j < nextIndex s" by (simp add: s')
    from D(8) [OF that(1) this] consider "results s ! j \<noteq> None"
      | "Awaiting j \<in> set (workers s)" | "\<exists>e. handler (items ! j) j = Inl e"
      by blast
    then show ?thesis
    proof cases
      case 1
      then show ?thesis by (simp add: s')
    next
      case 2
      with ji w(2) have "Awaiting j \<in> set ((workers s)[w := Rejected])"
        by (intro set_list_update_other) simp_all
      then show ?thesis by (simp add: s')
    next
      case 3
      then show ?thesis by blast
    qed
  qed
qed

lemma pool_inv_step:
  assumes "pool_inv items concurrency handler s" and "pool_step items concurrency handler s s'"
  shows "pool_inv items concurrency handler s'"
  using assms(2)
proof cases
  case start
  with assms(1) show ?thesis by (blast intro: pool_inv_start)
next
  case (settle w)
  from settle(2) show ?thesis
  proof (cases rule: resume_worker_cases)
    case (fulfilled i v)
    with assms(1) show ?thesis by (rule pool_inv_fulfilled)
  next
    case (rejected i e)
    with assms(1) show ?thesis by (rule pool_inv_rejected)
  qed
qed

lemma pool_inv_reachable:
  "pool_reachable items concurrency handler s \<Longrightarrow> pool_inv items concurrency handler s"
proof (induction rule: pool_reachable.induct)
  case init
  show ?case by (rule pool_inv_init)
next
  case (step s s')
  then show ?case by (blast intro: pool_inv_step)
qed



lemma pool_outcome_correct:
  assumes gate: "1 \<le> concurrency \<or> items = []"
    and fulfil: "\<forall>i<length items. handler (items ! i) i = Inr (val i)"
    and reach: "pool_reachable items concurrency handler s"
    and out: "pool_outcome items concurrency s = Some r"
  shows "r = Inr (map (\<lambda>i. Some (val i)) [0..<length items])"
proof -
  note D = pool_invD [OF pool_inv_reachable [OF reach]]
  have no_rej: "rejection s = None"
  proof (cases "rejection s")
    case (Some e)
    from D(6) [OF this] fulfil show ?thesis by auto
  qed simp
  from out no_rej have full: "length (workers s) = worker_count items concurrency"
    and all_ret: "list_all (\<lambda>w. w = Returned) (workers s)" and r: "r = Inr (results s)"
    using D(2) by (auto simp: pool_outcome_def split: if_splits)
  have "results s = map (\<lambda>i. Some (val i)) [0..<length items]"
  proof (rule nth_equalityI)
    show "length (results s) = length (map (\<lambda>i. Some (val i)) [0..<length items])"
      using D(1) by simp
  next
    fix i assume "i < length (results s)"
    with D(1) have i: "i < length items" by simp
    then have "items \<noteq> []" by auto
    with gate have "0 < worker_count items concurrency" by (auto simp: worker_count_def)
    with full have "workers s \<noteq> []" by auto
    then obtain w where "w \<in> set (workers s)" by (cases "workers s") auto
    with all_ret have "Returned \<in> set (workers s)" by (auto simp: list_all_iff)
    with D(4) i have "i < nextIndex s" by simp
    from D(8) [OF i this] have "results s ! i \<noteq> None"
      using all_ret fulfil i by (auto simp: list_all_iff)
    then obtain v where v: "results s ! i = Some v" by auto
    from D(7) [OF i v] fulfil i have "v = val i" by auto
    with v i show "results s ! i = map (\<lambda>i. Some (val i)) [0..<length items] ! i" by simp
  qed
  with r show ?thesis by simp
qed

lemma resume_worker_awaiting:
  "w < length (workers s) \<Longrightarrow> workers s ! w = Awaiting i
    \<Longrightarrow> \<exists>s'. resume_worker items handler w s = Some s'"
  by (simp add: resume_worker_def worker_enter_eq split: sum.splits)

lemma pool_progress:
  assumes reach: "pool_reachable items concurrency handler s"
    and out: "pool_outcome items concurrency s = None"
  shows "\<exists>s'. pool_step items concurrency handler s s'"
proof (cases "length (workers s) < worker_count items concurrency")
  case True
  then show ?thesis by (blast intro: pool_step.start)
next
  case False
  note D = pool_invD [OF pool_inv_reachable [OF reach]]
  from False D(2) have full: "length (workers s) = worker_count items concurrency" by simp
  from out False have rej: "rejection s = None"
    and "\<not> list_all (\<lambda>w. w = Returned) (workers s)"
    by (auto simp: pool_outcome_def split: option.splits if_splits)
  then obtain x where x: "x \<in> set (workers s)" "x \<noteq> Returned"
    by (auto simp: list_all_iff)
  with D(5) rej have "x \<noteq> Rejected" by auto
  with x(2) obtain i where "x = Awaiting i" using worker.exhaust [of x] by blast
  with x(1) have "Awaiting i \<in> set (workers s)" by simp
  then obtain w where "w < length (workers s)" "workers s ! w = Awaiting i"
    by (auto simp: in_set_conv_nth)
  from resume_worker_awaiting [OF this] full show ?thesis
    by (blast intro: pool_step.settle)
qed

lemma filter_update_length:
  "w < length xs \<Longrightarrow>
     length (filter P (xs[w := y])) + (if P (xs ! w) then 1 else 0)
       = length (filter P xs) + (if P y then 1 else 0)"
proof (induction xs arbitrary: w)
  case Nil
  then show ?case by simp
next
  case (Cons x xs)
  then show ?case by (cases w) auto
qed

lemma pending_update:
  "w < length (workers s) \<Longrightarrow> workers s ! w = Awaiting i \<Longrightarrow>
     pending (s\<lparr>workers := (workers s)[w := y]\<rparr>) + 1 = pending s + (if awaiting y then 1 else 0)"
  using filter_update_length [of w "workers s" awaiting y] by (simp add: pending_def)

lemma pool_measure_step:
  assumes "pool_step items concurrency handler s s'"
  shows "pool_measure items concurrency s' < pool_measure items concurrency s"
  using assms
proof cases
  case start
  then show ?thesis
    by (auto simp: pool_measure_def start_worker_eq pending_def entered_def min_def)
next
  case (settle w)
  from settle(2) show ?thesis
  proof (cases rule: resume_worker_cases)
    case (fulfilled i v)
    have "pending (s\<lparr>workers := (workers s)[w := entered items (nextIndex s)]\<rparr>) + 1
            = pending s + (if awaiting (entered items (nextIndex s)) then 1 else 0)"
      using fulfilled(1,2) by (rule pending_update)
    moreover have "pending s' = pending (s\<lparr>workers := (workers s)[w := entered items (nextIndex s)]\<rparr>)"
      by (simp add: fulfilled(4) pending_def)
    ultimately show ?thesis
      by (auto simp: pool_measure_def fulfilled(4) entered_def min_def split: if_splits)
  next
    case (rejected i e)
    have "pending (s\<lparr>workers := (workers s)[w := Rejected]\<rparr>) + 1
            = pending s + (if awaiting Rejected then 1 else 0)"
      using rejected(1,2) by (rule pending_update)
    moreover have "pending s' = pending (s\<lparr>workers := (workers s)[w := Rejected]\<rparr>)"
      by (simp add: rejected(4) pending_def)
    ultimately show ?thesis
      by (simp add: pool_measure_def rejected(4))
  qed
qed

lemma start_worker_length:
  "length (workers (start_worker items s)) = Suc (length (workers s))"
  by (simp add: start_worker_eq)

lemma start_workers_reachable:
  fixes handler :: "'a \<Rightarrow> nat \<Rightarrow> 'e + 'b"
  shows "k \<le> worker_count items concurrency \<Longrightarrow>
     pool_reachable items concurrency handler (((start_worker items) ^^ k) (pool_init items))
     \<and> length (workers (((start_worker items) ^^ k) (pool_init items :: ('b, 'e) pool))) = k"
proof (induction k)
  case 0
  show ?case by (simp add: pool_reachable.init) (simp add: pool_init_def)
next
  case (Suc k)
  let ?s = "((start_worker items) ^^ k) (pool_init items :: ('b, 'e) pool)"
  have "k \<le> worker_count items concurrency" using Suc.prems by simp
  note IH = Suc.IH [OF this]
  note reach = IH [THEN conjunct1] and len = IH [THEN conjunct2]
  from len Suc.prems have "pool_step items concurrency handler ?s (start_worker items ?s)"
    by (intro pool_step.start) simp
  with reach have "pool_reachable items concurrency handler (start_worker items ?s)"
    by (rule pool_reachable.step)
  moreover have "length (workers (start_worker items ?s)) = Suc k"
    by (simp only: start_worker_length len)
  ultimately show ?case by (simp only: funpow.simps o_apply)
qed

lemma pool_started_reachable:
  fixes handler :: "'a \<Rightarrow> nat \<Rightarrow> 'e + 'b"
  shows "pool_reachable items concurrency handler (pool_started items concurrency)
   \<and> length (workers (pool_started items concurrency :: ('b, 'e) pool))
       = worker_count items concurrency"
  unfolding pool_started_def by (rule start_workers_reachable) simp

lemma settle_next_reachable:
  assumes "pool_reachable items concurrency handler s"
    and "length (workers s) = worker_count items concurrency"
  shows "pool_reachable items concurrency handler (settle_next items handler s w)
   \<and> length (workers (settle_next items handler s w)) = worker_count items concurrency"
proof (cases "resume_worker items handler w s")
  case None
  with assms show ?thesis by (simp add: settle_next_def)
next
  case (Some s')
  with assms(2) have "pool_step items concurrency handler s s'"
    by (blast intro: pool_step.settle)
  with assms(1) have "pool_reachable items concurrency handler s'"
    by (rule pool_reachable.step)
  moreover from Some have "length (workers s') = length (workers s)"
    by (cases rule: resume_worker_cases) simp_all
  ultimately show ?thesis using Some assms(2) by (simp add: settle_next_def)
qed

lemma settle_order_reachable:
  assumes "pool_reachable items concurrency handler s"
    and "length (workers s) = worker_count items concurrency"
  shows "pool_reachable items concurrency handler (foldl (settle_next items handler) s order)
   \<and> length (workers (foldl (settle_next items handler) s order))
       = worker_count items concurrency"
  using assms
proof (induction order arbitrary: s)
  case Nil
  then show ?case by simp
next
  case (Cons w order)
  from settle_next_reachable [OF Cons.prems, of w] show ?case
    by (simp add: Cons.IH)
qed

lemma settle_can_finish:
  assumes "pool_reachable items concurrency handler s"
    and "length (workers s) = worker_count items concurrency"
  shows "\<exists>more. pool_outcome items concurrency (foldl (settle_next items handler) s more) \<noteq> None"
  using assms
proof (induction "pool_measure items concurrency s" arbitrary: s rule: less_induct)
  case less
  show ?case
  proof (cases "pool_outcome items concurrency s")
    case (Some r)
    then have "pool_outcome items concurrency (foldl (settle_next items handler) s []) \<noteq> None"
      by simp
    then show ?thesis by blast
  next
    case None
    from pool_progress [OF less.prems(1) None] obtain s' where
      step: "pool_step items concurrency handler s s'" by blast
    from step less.prems(2) obtain w where w: "resume_worker items handler w s = Some s'"
      by cases simp_all
    then have next_s': "settle_next items handler s w = s'" by (simp add: settle_next_def)
    from settle_next_reachable [OF less.prems, of w] next_s'
    have "pool_reachable items concurrency handler s'"
      and "length (workers s') = worker_count items concurrency" by simp_all
    from less.hyps [OF pool_measure_step [OF step] this] obtain more where
      "pool_outcome items concurrency (foldl (settle_next items handler) s' more) \<noteq> None"
      by blast
    with next_s' have
      "pool_outcome items concurrency (foldl (settle_next items handler) s (w # more)) \<noteq> None"
      by simp
    then show ?thesis by blast
  qed
qed

lemma mapWithConcurrency_correct:
  assumes "1 \<le> concurrency \<or> items = []"
    and "\<forall>i<length items. handler (items ! i) i = Inr (val i)"
    and "mapWithConcurrency items concurrency handler order = Some r"
  shows "r = Inr (map (\<lambda>i. Some (val i)) [0..<length items])"
proof -
  from pool_started_reachable [of items concurrency handler]
  have "pool_reachable items concurrency handler
          (foldl (settle_next items handler) (pool_started items concurrency) order)"
    using settle_order_reachable by blast
  from pool_outcome_correct [where handler = handler and val = val, OF assms(1,2) this]
    assms(3) show ?thesis
    by (simp add: mapWithConcurrency_def)
qed

lemma mapWithConcurrency_finishes:
  assumes "1 \<le> concurrency \<or> items = []"
    and "\<forall>i<length items. handler (items ! i) i = Inr (val i)"
  shows "\<exists>more. mapWithConcurrency items concurrency handler (order @ more)
                  = Some (Inr (map (\<lambda>i. Some (val i)) [0..<length items]))"
proof -
  let ?s = "foldl (settle_next items handler) (pool_started items concurrency) order"
  from pool_started_reachable [of items concurrency handler]
  have "pool_reachable items concurrency handler ?s"
    and "length (workers ?s) = worker_count items concurrency"
    using settle_order_reachable by blast+
  from settle_can_finish [OF this] obtain more r where
    "pool_outcome items concurrency (foldl (settle_next items handler) ?s more) = Some r"
    by blast
  then have run: "mapWithConcurrency items concurrency handler (order @ more) = Some r"
    by (simp add: mapWithConcurrency_def)
  from mapWithConcurrency_correct [where handler = handler and val = val, OF assms this] run
  show ?thesis by blast
qed

text \<open>
  Claim C2, as stated, fails for the concurrency limit 0: no worker is started, the call
  settles at once, and the array it returns has an empty slot where the result of the
  handler for the item should be.
\<close>

theorem mapWithConcurrency_in_input_order_counterexample:
  "mapWithConcurrency [5] 0 tenfold [] = Some (Inr [None]) \<and> tenfold 5 0 = Inr 50"
  by (simp add: mapWithConcurrency_def pool_started_def worker_count_def pool_init_def
      pool_outcome_def tenfold_def)

text \<open>
  Claim C2, amended. For every item list, every concurrency limit of at least 1 (or an
  empty list) and every handler whose calls all fulfil, \<open>mapWithConcurrency\<close> returns the
  array whose element \<open>i\<close> is the value of the handler for \<open>items[i]\<close>, in whatever order
  the calls settle: in every reachable state in which the call has settled this array is
  its result; a call that has not settled can take a step; every step decreases
  \<open>pool_measure\<close>, so no run is infinite; and under every order of settlement the call
  gives this array once it has settled, which every order can be continued to.
\<close>

theorem mapWithConcurrency_in_input_order:
  assumes "1 \<le> concurrency \<or> items = []"
    and "\<forall>i<length items. handler (items ! i) i = Inr (val i)"
  shows "(\<forall>s r. pool_reachable items concurrency handler s
              \<and> pool_outcome items concurrency s = Some r
            \<longrightarrow> r = Inr (map (\<lambda>i. Some (val i)) [0..<length items]))
    \<and> (\<forall>s. pool_reachable items concurrency handler s
              \<and> pool_outcome items concurrency s = None
            \<longrightarrow> (\<exists>s'. pool_step items concurrency handler s s'))
    \<and> (\<forall>s s'. pool_step items concurrency handler s s'
            \<longrightarrow> pool_measure items concurrency s' < pool_measure items concurrency s)
    \<and> (\<forall>order r. mapWithConcurrency items concurrency handler order = Some r
            \<longrightarrow> r = Inr (map (\<lambda>i. Some (val i)) [0..<length items]))
    \<and> (\<forall>order. \<exists>more. mapWithConcurrency items concurrency handler (order @ more)
                          = Some (Inr (map (\<lambda>i. Some (val i)) [0..<length items])))"
proof (intro conjI allI impI)
  fix s r
  assume "pool_reachable items concurrency handler s
            \<and> pool_outcome items concurrency s = Some r"
  then show "r = Inr (map (\<lambda>i. Some (val i)) [0..<length items])"
    using pool_outcome_correct [where handler = handler and val = val, OF assms] by blast
next
  fix s
  assume "pool_reachable items concurrency handler s
            \<and> pool_outcome items concurrency s = None"
  then show "\<exists>s'. pool_step items concurrency handler s s'"
    using pool_progress by blast
next
  fix s s' :: "('c, 'b) pool"
  assume "pool_step items concurrency handler s s'"
  then show "pool_measure items concurrency s' < pool_measure items concurrency s"
    by (rule pool_measure_step)
next
  fix order r
  assume "mapWithConcurrency items concurrency handler order = Some r"
  then show "r = Inr (map (\<lambda>i. Some (val i)) [0..<length items])"
    using mapWithConcurrency_correct [where handler = handler and val = val, OF assms] by blast
next
  fix order
  show "\<exists>more. mapWithConcurrency items concurrency handler (order @ more)
                          = Some (Inr (map (\<lambda>i. Some (val i)) [0..<length items]))"
    using mapWithConcurrency_finishes [where handler = handler and val = val, OF assms]
    by blast
qed

theorem mapWithConcurrency_in_input_order_witness:
  "(1::nat) \<le> 2
   \<and> tenfold ([1, 2, 3] ! 0) 0 = Inr 10 \<and> tenfold ([1, 2, 3] ! 1) 1 = Inr 20
   \<and> tenfold ([1, 2, 3] ! 2) 2 = Inr 30
   \<and> mapWithConcurrency [1, 2, 3] 2 tenfold [1, 1, 0] = Some (Inr [Some 10, Some 20, Some 30])
   \<and> mapWithConcurrency [1, 2, 3] 2 tenfold [0, 0, 1] = Some (Inr [Some 10, Some 20, Some 30])
   \<and> mapWithConcurrency [1, 2, 3] 2 tenfold [0, 1] = None"
proof -
  have gate: "(1::nat) \<le> 2 \<or> [1, 2, 3 :: int] = []" by simp
  have vals: "\<forall>i<length [1, 2, 3 :: int]. tenfold ([1, 2, 3] ! i) i = Inr (10 * (int i + 1))"
    by (simp add: tenfold_def less_Suc_eq eval_nat_numeral)
  note T = mapWithConcurrency_in_input_order
      [where handler = tenfold and val = "\<lambda>i. 10 * (int i + 1)", OF gate vals]
  have up: "map (\<lambda>i. Some (10 * (int i + 1))) [0..<length [1, 2, 3 :: int]]
              = [Some 10, Some 20, Some 30]"
    by (simp add: upt_rec)
  have a: "mapWithConcurrency [1, 2, 3] 2 tenfold [1, 1, 0] \<noteq> None"
    by (simp add: mapWithConcurrency_def pool_started_def worker_count_def pool_init_def
      pool_outcome_def tenfold_def settle_next_def resume_worker_def worker_enter_eq
      start_worker_eq entered_def eval_nat_numeral)
  have b: "mapWithConcurrency [1, 2, 3] 2 tenfold [0, 0, 1] \<noteq> None"
    by (simp add: mapWithConcurrency_def pool_started_def worker_count_def pool_init_def
      pool_outcome_def tenfold_def settle_next_def resume_worker_def worker_enter_eq
      start_worker_eq entered_def eval_nat_numeral)
  have c: "mapWithConcurrency [1, 2, 3] 2 tenfold [0, 1] = None"
    by (simp add: mapWithConcurrency_def pool_started_def worker_count_def pool_init_def
      pool_outcome_def tenfold_def settle_next_def resume_worker_def worker_enter_eq
      start_worker_eq entered_def eval_nat_numeral)
  from a T have a': "mapWithConcurrency [1, 2, 3] 2 tenfold [1, 1, 0]
                       = Some (Inr [Some 10, Some 20, Some 30])"
    unfolding up by blast
  from b T have b': "mapWithConcurrency [1, 2, 3] 2 tenfold [0, 0, 1]
                       = Some (Inr [Some 10, Some 20, Some 30])"
    unfolding up by blast
  from a' b' c show ?thesis by (simp add: tenfold_def)
qed



section \<open>Calls that always return\<close>

text \<open>
  The option in the results of \<open>getUniversePlayingById\<close>, \<open>refreshTotals\<close> and
  \<open>getUniverseStats\<close> is never \<open>None\<close>: with one worker the calls settle in the order the
  worker makes them, and a chunk loop with a positive chunk size ends, with
  \<open>ceil(n / chunkSize)\<close> chunks.
\<close>

lemma single_worker_run:
  fixes handler :: "'a \<Rightarrow> nat \<Rightarrow> 'e + 'b"
  assumes "items \<noteq> []" and "k \<le> length items"
  shows "rejection (foldl (settle_next items handler) (pool_started items (Suc 0)) (replicate k 0)) \<noteq> None
         \<and> length (workers (foldl (settle_next items handler) (pool_started items (Suc 0)) (replicate k 0))) = 1
       \<or> workers (foldl (settle_next items handler) (pool_started items (Suc 0)) (replicate k 0))
           = [entered items k]
         \<and> nextIndex (foldl (settle_next items handler) (pool_started items (Suc 0)) (replicate k 0))
           = Suc k"
  using assms(2)
proof (induction k)
  case 0
  with assms(1) show ?case by (simp add: pool_started_one entered_def)
next
  case (Suc k)
  let ?s = "foldl (settle_next items handler) (pool_started items (Suc 0)) (replicate k 0)"
  have step: "foldl (settle_next items handler) (pool_started items (Suc 0)) (replicate (Suc k) 0)
           = settle_next items handler ?s 0"
  proof -
    have "replicate (Suc k) (0::nat) = replicate k 0 @ [0]"
      by (simp add: replicate_append_same)
    then show ?thesis by (simp only: foldl_append foldl.simps)
  qed
  from Suc have "rejection ?s \<noteq> None \<and> length (workers ?s) = 1
       \<or> workers ?s = [entered items k] \<and> nextIndex ?s = Suc k" by simp
  then show ?case
  proof
    assume "rejection ?s \<noteq> None \<and> length (workers ?s) = 1"
    then show ?thesis
      unfolding step
      by (auto simp: settle_next_def resume_worker_def worker_enter_eq
          split: option.splits worker.splits sum.splits)
  next
    assume "workers ?s = [entered items k] \<and> nextIndex ?s = Suc k"
    with Suc.prems show ?thesis
      unfolding step
      by (auto simp: settle_next_def resume_worker_def worker_enter_eq entered_def
          split: option.splits worker.splits sum.splits)
  qed
qed

lemma mapWithConcurrency_single_worker_settles:
  fixes handler :: "'a \<Rightarrow> nat \<Rightarrow> 'e + 'b"
  shows "mapWithConcurrency items (Suc 0) handler (replicate (length items) 0) \<noteq> None"
proof (cases "items = []")
  case True
  then show ?thesis
    by (simp add: mapWithConcurrency_def pool_started_def worker_count_def pool_init_def
        pool_outcome_def)
next
  case False
  from single_worker_run [OF False, of "length items" handler]
  show ?thesis using False
    by (auto simp: mapWithConcurrency_def pool_outcome_def worker_count_def entered_def
        split: option.splits)
qed

lemma getUniversePlayingById_returns:
  "\<exists>r. getUniversePlayingById rt responses universeIds = Some r"
  using mapWithConcurrency_single_worker_settles
          [of "universeChunks universeIds" "\<lambda>chunk i. responses i"]
  by (auto simp: getUniversePlayingById_def Let_def split: option.splits sum.splits)

lemma refreshTotals_returns:
  "\<exists>r. refreshTotals rt responses ownedGroups allGames rolimonsPlayersByPlace = Some r"
  using getUniversePlayingById_returns [of rt responses "map universeId allGames"]
  by (auto simp: refreshTotals_def Let_def split: option.splits sum.splits)

lemma chunkArray_loop_returns:
  "0 < chunkSize \<Longrightarrow>
     chunkArray_loop values chunkSize i chunks =
       Some (chunks @ map (\<lambda>j. slice values (i + j * chunkSize) (i + Suc j * chunkSize))
                          [0..<(length values - i + chunkSize - 1) div chunkSize])"
proof (induction "length values - i" arbitrary: i chunks rule: less_induct)
  case less
  show ?case
  proof (cases "i < length values")
    case False
    then have "(length values - i + chunkSize - 1) div chunkSize = 0"
      using less.prems by simp
    with False show ?thesis by (subst chunkArray_loop.simps) simp
  next
    case True
    have dec: "length values - (i + chunkSize) < length values - i"
      using True less.prems by simp
    from True obtain a where a: "length values - i = Suc a"
      by (metis Suc_diff_Suc)
    have lhs: "(length values - i + chunkSize - 1) div chunkSize = Suc (a div chunkSize)"
    proof -
      have "length values - i + chunkSize - 1 = a + chunkSize" by (simp add: a)
      moreover have "(a + chunkSize) div chunkSize = a div chunkSize + 1"
        using less.prems by (simp add: div_add_self2)
      ultimately show ?thesis by simp
    qed
    have rhs: "(length values - (i + chunkSize) + chunkSize - 1) div chunkSize = a div chunkSize"
    proof (cases "chunkSize \<le> Suc a")
      case True
      with a have "length values - (i + chunkSize) + chunkSize - 1 = a" by simp
      then show ?thesis by simp
    next
      case False
      with a have "length values - (i + chunkSize) = 0" "a < chunkSize" by simp_all
      then show ?thesis using less.prems by simp
    qed
    have count: "(length values - i + chunkSize - 1) div chunkSize
                   = Suc ((length values - (i + chunkSize) + chunkSize - 1) div chunkSize)"
      by (simp only: lhs rhs)
    have shift: "map (\<lambda>j. slice values (i + j * chunkSize) (i + Suc j * chunkSize))
                   [0..<Suc n]
                 = slice values i (i + chunkSize)
                   # map (\<lambda>j. slice values (i + chunkSize + j * chunkSize)
                                  (i + chunkSize + Suc j * chunkSize)) [0..<n]" for n
      by (simp add: upt_conv_Cons map_Suc_upt [symmetric] add.assoc del: upt_Suc)
    let ?m = "(length values - (i + chunkSize) + chunkSize - 1) div chunkSize"
    have "chunkArray_loop values chunkSize i chunks =
            chunkArray_loop values chunkSize (i + chunkSize)
              (chunks @ [slice values i (i + chunkSize)])"
      using True by (subst chunkArray_loop.simps) simp
    also have "\<dots> = Some ((chunks @ [slice values i (i + chunkSize)])
                 @ map (\<lambda>j. slice values (i + chunkSize + j * chunkSize)
                                (i + chunkSize + Suc j * chunkSize)) [0..<?m])"
      by (rule less.hyps [OF dec less.prems])
    also have "\<dots> = Some (chunks
                 @ map (\<lambda>j. slice values (i + j * chunkSize) (i + Suc j * chunkSize))
                     [0..<Suc ?m])"
      by (simp only: shift append_Cons append_Nil append_assoc)
    finally show ?thesis by (simp only: count)
  qed
qed

lemma chunkArray_returns:
  "0 < chunkSize \<Longrightarrow>
     chunkArray values chunkSize =
       Some (map (\<lambda>j. slice values (j * chunkSize) (Suc j * chunkSize))
                 [0..<(length values + chunkSize - 1) div chunkSize])"
  using chunkArray_loop_returns [of chunkSize "values" 0 "[]"] by (simp add: chunkArray_def)

lemma getUniverseStats_returns:
  "\<exists>r. getUniverseStats rt responses universeIds = Some r"
  using chunkArray_returns [of 30 universeIds] by (simp add: getUniverseStats_def)

end
